theory Spec2Isabelle
  imports Main "HOL-Library.Sublist"
begin

section \<open>The action recorder (recorder_clicks_window.py)\<close>

text \<open>
  The recorder listens to the mouse and the keyboard on two listener threads, takes a
  screenshot for every click, scroll and F9 press, and appends one \<open>Step\<close> per event to
  a global list under a lock. This theory embeds the event-to-record pipeline: the
  helpers, \<open>record\<close>, the three listener callbacks, and the interleaving of the two
  listener threads.
\<close>

subsection \<open>Python strings\<close>

text \<open>\<open>str(i)\<close> and \<open>f"{i}"\<close> for a Python int: the decimal numeral, with a minus sign.\<close>

definition digit_char :: "nat \<Rightarrow> char" where
  "digit_char d = ''0123456789'' ! d"

fun digits :: "nat \<Rightarrow> string" where
  "digits n = (if n < 10 then [digit_char n] else digits (n div 10) @ [digit_char (n mod 10)])"

declare digits.simps [simp del]

definition str_int :: "int \<Rightarrow> string" where
  "str_int i = (if i < 0 then CHR ''-'' # digits (nat (- i)) else digits (nat i))"

text \<open>\<open>f"{v}"\<close> for an \<open>Optional[int]\<close>: \<open>None\<close> prints as the word None.\<close>

definition str_opt_int :: "int option \<Rightarrow> string" where
  "str_opt_int v = (case v of None \<Rightarrow> ''None'' | Some i \<Rightarrow> str_int i)"

text \<open>
  \<open>s.replace(old, new)\<close>: every non-overlapping occurrence of \<open>old\<close>, scanning from the
  left; with an empty \<open>old\<close>, Python puts \<open>new\<close> before every character and at the end.
\<close>

fun replace_from :: "string \<Rightarrow> string \<Rightarrow> string \<Rightarrow> string" where
  "replace_from old new [] = []"
| "replace_from old new (c # cs) =
     (if old \<noteq> [] \<and> prefix old (c # cs)
      then new @ replace_from old new (drop (length old) (c # cs))
      else c # replace_from old new cs)"

definition replace :: "string \<Rightarrow> string \<Rightarrow> string \<Rightarrow> string" where
  "replace s old new =
     (if old = [] then new @ concat (map (\<lambda>c. c # new) s) else replace_from old new s)"

text \<open>
  \<open>s.strip()\<close>: leading and trailing whitespace removed. A \<open>char\<close> stands for the code point
  of its number, so the strings of the model are those of code points below 256; the
  whitespace of \<open>str.isspace\<close> there is 9 to 13, 28 to 32, 133 (U+0085) and 160 (U+00A0).
\<close>

definition isspace :: "char \<Rightarrow> bool" where
  "isspace c =
     (let n = of_char c :: nat
      in (9 \<le> n \<and> n \<le> 13) \<or> (28 \<le> n \<and> n \<le> 32) \<or> n = 133 \<or> n = 160)"

definition strip :: "string \<Rightarrow> string" where
  "strip s = rev (dropWhile isspace (rev (dropWhile isspace s)))"

subsection \<open>Settings (CONFIGURACOES) and the installation\<close>

definition ANNOTATE_CLICK :: bool where
  "ANNOTATE_CLICK = True"

definition CIRCLE_RADIUS :: int where
  "CIRCLE_RADIUS = 18"

definition CIRCLE_WIDTH :: int where
  "CIRCLE_WIDTH = 5"

type_synonym rgb = "nat \<times> nat \<times> nat"
type_synonym rgba = "nat \<times> nat \<times> nat \<times> nat"

definition CIRCLE_COLOR :: rgb where
  "CIRCLE_COLOR = (220, 40, 40)"

definition SHADOW_COLOR :: rgba where
  "SHADOW_COLOR = (0, 0, 0, 90)"

subsection \<open>Images and Pillow\<close>

text \<open>
  A raster: its size and the colour at every coordinate. A file written by
  \<open>pyautogui.screenshot(...).save(p)\<close> holds an RGB raster; \<open>annotate_click_on_image\<close> works
  on the RGBA conversion of it.
\<close>

record 'p raster =
  im_width :: nat
  im_height :: nat
  im_pixel :: "int \<Rightarrow> int \<Rightarrow> 'p"

type_synonym region = "int \<times> int \<times> int \<times> int"

text \<open>\<open>im.convert("RGBA")\<close> on an RGB image adds a full alpha channel; \<open>im.convert("RGB")\<close> drops it.\<close>

definition convert_RGBA :: "rgb raster \<Rightarrow> rgba raster" where
  "convert_RGBA im =
     \<lparr>im_width = im_width im, im_height = im_height im,
      im_pixel = (\<lambda>px py. case im_pixel im px py of (r, g, b) \<Rightarrow> (r, g, b, 255))\<rparr>"

definition convert_RGB :: "rgba raster \<Rightarrow> rgb raster" where
  "convert_RGB im =
     \<lparr>im_width = im_width im, im_height = im_height im,
      im_pixel = (\<lambda>px py. case im_pixel im px py of (r, g, b, a) \<Rightarrow> (r, g, b))\<rparr>"

text \<open>
  What the program finds installed and configured when it starts: the crop radius (0 as
  shipped, "ex: 220" in its comment), the platform test, which of the optional modules
  were imported, and Pillow's \<open>ImageDraw.ellipse(box, outline, width)\<close>, whose
  rasteriser is outside the repository.
\<close>

record globals =
  CROP_RADIUS :: int
  is_windows :: bool
  gw :: bool
  win32gui :: bool
  win32process :: bool
  ellipse :: "region \<Rightarrow> rgba \<Rightarrow> int \<Rightarrow> rgba raster \<Rightarrow> rgba raster"

text \<open>The inclusive bounding box of a Pillow drawing call.\<close>

definition in_box :: "region \<Rightarrow> int \<Rightarrow> int \<Rightarrow> bool" where
  "in_box box px py = (case box of (x0, y0, x1, y1) \<Rightarrow> x0 \<le> px \<and> px \<le> x1 \<and> y0 \<le> py \<and> py \<le> y1)"

subsection \<open>Cropping\<close>

text \<open>
  The \<open>region\<close> argument that \<open>capture_with_optional_crop\<close> passes to \<open>capture\<close>
  (lines 179 to 185): \<open>None\<close> is the full screen.
\<close>

definition crop_region :: "globals \<Rightarrow> int option \<Rightarrow> int option \<Rightarrow> region option" where
  "crop_region G px py =
     (case (px, py) of
        (Some xv, Some yv) \<Rightarrow>
          if CROP_RADIUS G \<noteq> 0 then
            (let left = max 0 (xv - CROP_RADIUS G);
                 top = max 0 (yv - CROP_RADIUS G);
                 width = CROP_RADIUS G * 2;
                 height = CROP_RADIUS G * 2
             in Some (left, top, width, height))
          else None
      | _ \<Rightarrow> None)"

text \<open>The square of the specification: side \<open>2 * radius\<close>, centred on the position.\<close>

definition centred_square :: "int \<Rightarrow> int \<Rightarrow> int \<Rightarrow> region" where
  "centred_square r px py = (px - r, py - r, 2 * r, 2 * r)"

subsection \<open>Exceptions, paths and the file store\<close>

text \<open>An instance of \<open>Exception\<close>, with the text that \<open>print\<close> shows for it.\<close>

datatype exn = Exception string

fun str_exn :: "exn \<Rightarrow> string" where
  "str_exn (Exception m) = m"

text \<open>
  The two image directories under \<open>BASE_OUT\<close>; a path is a directory and a file name,
  \<open>p.name\<close> is the file name.
\<close>

datatype dir = IMAGES_DIR | IMAGES_MARKED_DIR

type_synonym path = "dir \<times> string"

definition path_name :: "path \<Rightarrow> string" where
  "path_name p = snd p"

type_synonym filesystem = "path \<rightharpoonup> rgb raster"

subsection \<open>State (ESTADO)\<close>

record Step =
  idx :: int
  ts :: string
  action :: string
  pos_x :: "int option"
  pos_y :: "int option"
  window_title :: string
  app_name :: string
  img_rel :: string
  img_mark_rel :: string

datatype tid = Mouse | Keyboard

text \<open>
  The module's globals \<open>steps\<close>, \<open>running\<close>, \<open>lock\<close> (with its holder) and
  \<open>step_counter\<close>, the image files on disk, and the lines printed so far.
\<close>

record state =
  steps :: "Step list"
  running :: bool
  lock :: "tid option"
  step_counter :: int
  files :: filesystem
  console :: "string list"

subsection \<open>What the operating system answers\<close>

text \<open>The object \<open>gw.getActiveWindow()\<close> returns: reading \<open>win.title\<close> may raise or give
  \<open>None\<close>; \<open>hWnd\<close> is \<open>getattr(win, "_hWnd", None)\<close>.\<close>

record window =
  win_title :: "exn + string option"
  hWnd :: "int option"

text \<open>
  Everything a callback reads from outside while it handles one event: the clock, the
  screen, the window system, whether Pillow's file input and output fail, and whether
  the console refuses a line (\<open>print\<close> raises UnicodeEncodeError on a line that the
  console's encoding cannot write).
\<close>

record obs =
  time_ms :: int
  now_human :: string
  screenshot :: "region option \<Rightarrow> exn + rgb raster"
  getActiveWindow :: "exn + window option"
  GetWindowThreadProcessId :: "int \<Rightarrow> exn + int \<times> int"
  Process_name :: "int \<Rightarrow> exn + string"
  GetForegroundWindow :: "exn + int"
  GetWindowText :: "int \<Rightarrow> exn + string"
  pil_fault :: "exn option"
  print_fault :: "string \<Rightarrow> exn option"

subsection \<open>Helpers\<close>

text \<open>
  A \<open>try\<close> body is modelled by the values of its variables when control leaves it and
  the exception that left it, if any; \<open>except Exception: pass\<close> keeps the variables
  and drops the exception.
\<close>

definition except_pass :: "'a \<times> exn option \<Rightarrow> 'a" where
  "except_pass r = fst r"

text \<open>Lines 124 to 127 and 141 to 143: the process name of the window's owner.\<close>

definition process_of_window :: "obs \<Rightarrow> int \<Rightarrow> string \<Rightarrow> string \<times> exn option" where
  "process_of_window ob hwnd app =
     (case GetWindowThreadProcessId ob hwnd of
        Inl e \<Rightarrow> (app, Some e)
      | Inr (_, pid) \<Rightarrow>
          if pid \<noteq> 0 then
            (case Process_name ob pid of
               Inl e \<Rightarrow> (app, Some e)
             | Inr n \<Rightarrow> (n, None))
          else (app, None))"

text \<open>Lines 119 to 129, the body of the first \<open>try\<close>, on the variables \<open>(title, app)\<close>.\<close>

definition via_pygetwindow :: "globals \<Rightarrow> obs \<Rightarrow> string \<times> string \<Rightarrow> (string \<times> string) \<times> exn option" where
  "via_pygetwindow G ob v =
     (case getActiveWindow ob of
        Inl e \<Rightarrow> (v, Some e)
      | Inr None \<Rightarrow> (v, None)
      | Inr (Some win) \<Rightarrow>
          (case win_title win of
             Inl e \<Rightarrow> (v, Some e)
           | Inr t \<Rightarrow>
               (let title = strip (case t of None \<Rightarrow> [] | Some s \<Rightarrow> s) in
                case hWnd win of
                  Some h \<Rightarrow>
                    if is_windows G \<and> h \<noteq> 0 \<and> win32gui G \<and> win32process G
                    then ((title, except_pass (process_of_window ob h (snd v))), None)
                    else ((title, snd v), None)
                | None \<Rightarrow> ((title, snd v), None))))"

text \<open>Lines 136 to 145, the body of the second \<open>try\<close>.\<close>

definition via_win32 :: "globals \<Rightarrow> obs \<Rightarrow> string \<times> string \<Rightarrow> (string \<times> string) \<times> exn option" where
  "via_win32 G ob v =
     (case GetForegroundWindow ob of
        Inl e \<Rightarrow> (v, Some e)
      | Inr hwnd \<Rightarrow>
          if hwnd \<noteq> 0 then
            (case GetWindowText ob hwnd of
               Inl e \<Rightarrow> (v, Some e)
             | Inr t \<Rightarrow>
                 (let title = strip t in
                  if win32process G
                  then ((title, except_pass (process_of_window ob hwnd (snd v))), None)
                  else ((title, snd v), None)))
          else (v, None))"

text \<open>\<open>active_window_info\<close>: the pair it returns, or the exception that leaves it.\<close>

definition active_window_info :: "globals \<Rightarrow> obs \<Rightarrow> exn + string \<times> string" where
  "active_window_info G ob =
     (let v = ([], []);
          v = (if gw G then except_pass (via_pygetwindow G ob v) else v);
          v = (if fst v = [] \<and> is_windows G \<and> win32gui G
               then except_pass (via_win32 G ob v) else v)
      in Inr v)"

definition screenshot_path :: "obs \<Rightarrow> string \<Rightarrow> path" where
  "screenshot_path ob pfx = (IMAGES_DIR, pfx @ ''_'' @ str_int (time_ms ob) @ ''.png'')"

text \<open>An RGB outline colour drawn in RGBA mode is opaque.\<close>

definition opaque :: "rgb \<Rightarrow> rgba" where
  "opaque c = (case c of (r, g, b) \<Rightarrow> (r, g, b, 255))"

text \<open>
  \<open>annotate_click_on_image\<close>: the files after it, or the exception it raises.
  \<open>record\<close> passes the pair \<open>(x, y)\<close>, whose components may be \<open>None\<close>; subtracting from
  \<open>None\<close> is a TypeError.
\<close>

definition annotate_click_on_image ::
  "globals \<Rightarrow> obs \<Rightarrow> path \<Rightarrow> path \<Rightarrow> (int option \<times> int option) option \<Rightarrow> filesystem \<Rightarrow> exn + filesystem" where
  "annotate_click_on_image G ob src dst click_xy fs =
     (case pil_fault ob of
        Some e \<Rightarrow> Inl e
      | None \<Rightarrow>
          (case fs src of
             None \<Rightarrow> Inl (Exception ''FileNotFoundError'')
           | Some f \<Rightarrow>
               (let im = convert_RGBA f in
                case click_xy of
                  None \<Rightarrow> Inr (fs(dst \<mapsto> convert_RGB im))
                | Some (Some xv, Some yv) \<Rightarrow>
                    (let im = ellipse G
                                (xv - CIRCLE_RADIUS - 2, yv - CIRCLE_RADIUS - 2,
                                 xv + CIRCLE_RADIUS + 2, yv + CIRCLE_RADIUS + 2)
                                SHADOW_COLOR (CIRCLE_WIDTH + 2) im;
                         im = ellipse G
                                (xv - CIRCLE_RADIUS, yv - CIRCLE_RADIUS,
                                 xv + CIRCLE_RADIUS, yv + CIRCLE_RADIUS)
                                (opaque CIRCLE_COLOR) CIRCLE_WIDTH im
                     in Inr (fs(dst \<mapsto> convert_RGB im)))
                | Some _ \<Rightarrow> Inl (Exception ''TypeError''))))"

definition capture :: "obs \<Rightarrow> region option \<Rightarrow> filesystem \<Rightarrow> exn + path \<times> filesystem" where
  "capture ob region fs =
     (let p = screenshot_path ob ''step'' in
      case screenshot ob region of
        Inl e \<Rightarrow> Inl e
      | Inr im \<Rightarrow> Inr (p, fs(p \<mapsto> im)))"

definition capture_with_optional_crop ::
  "globals \<Rightarrow> obs \<Rightarrow> int option \<Rightarrow> int option \<Rightarrow> filesystem \<Rightarrow> exn + path \<times> filesystem" where
  "capture_with_optional_crop G ob px py fs = capture ob (crop_region G px py) fs"

subsection \<open>record\<close>

text \<open>Line 190, \<open>step_counter += 1\<close>.\<close>

definition record_incr :: "state \<Rightarrow> state" where
  "record_incr s = s\<lparr>step_counter := step_counter s + 1\<rparr>"

text \<open>
  Lines 192 to 201: the value of \<open>marked_rel\<close> and the files, after the attempt to
  annotate. The \<open>except\<close> clause leaves \<open>marked_rel\<close> empty.
\<close>

definition mark_image ::
  "globals \<Rightarrow> obs \<Rightarrow> string \<Rightarrow> int option \<Rightarrow> int option \<Rightarrow> path \<Rightarrow> filesystem \<Rightarrow> string \<times> filesystem" where
  "mark_image G ob act px py img_path fs =
     (if ANNOTATE_CLICK \<and> prefix ''click'' act then
        (let marked = (IMAGES_MARKED_DIR, path_name img_path) in
         case annotate_click_on_image G ob img_path marked (Some (px, py)) fs of
           Inr fs' \<Rightarrow> (''images_marked/'' @ path_name marked, fs')
         | Inl e \<Rightarrow> ([], fs))
      else ([], fs))"

text \<open>\<open>print(line)\<close>: the line reaches the console, or \<open>print\<close> raises.\<close>

definition print_line :: "obs \<Rightarrow> string \<Rightarrow> state \<Rightarrow> state \<times> exn option" where
  "print_line ob line s =
     (case print_fault ob line of
        Some e \<Rightarrow> (s, Some e)
      | None \<Rightarrow> (s\<lparr>console := console s @ [line]\<rparr>, None))"

text \<open>The line of line 214.\<close>

definition console_line ::
  "string \<Rightarrow> string \<Rightarrow> int option \<Rightarrow> int option \<Rightarrow> string \<Rightarrow> string \<Rightarrow> string \<Rightarrow> string" where
  "console_line stamp act px py file title app =
     ''['' @ stamp @ ''] '' @ act @ '' ('' @ str_opt_int px @ '','' @ str_opt_int py
     @ '') -> '' @ file @ '' | '' @ title @ '' ('' @ app @ '')''"

text \<open>
  Lines 191 to 214, the rest of the \<open>with lock\<close> block: the state when control leaves
  it, and the exception that leaves it, if any. The \<open>print\<close> of line 214 is inside the
  block and in no \<open>try\<close>: when it raises, the step is already appended.
\<close>

definition record_body ::
  "globals \<Rightarrow> obs \<Rightarrow> string \<Rightarrow> int option \<Rightarrow> int option \<Rightarrow> path \<Rightarrow> state \<Rightarrow> state \<times> exn option" where
  "record_body G ob act px py img_path s =
     (case active_window_info G ob of
        Inl e \<Rightarrow> (s, Some e)
      | Inr (title, app) \<Rightarrow>
          (case mark_image G ob act px py img_path (files s) of
             (marked_rel, fs) \<Rightarrow>
               (let step = \<lparr>idx = step_counter s, ts = now_human ob, action = act,
                            pos_x = px, pos_y = py, window_title = title, app_name = app,
                            img_rel = ''images/'' @ path_name img_path,
                            img_mark_rel = (if marked_rel \<noteq> [] then marked_rel
                                            else ''images/'' @ path_name img_path)\<rparr>
                in print_line ob
                     (console_line (ts step) act px py (path_name img_path) title app)
                     (s\<lparr>steps := steps s @ [step], files := fs\<rparr>))))"

subsection \<open>Listeners\<close>

text \<open>A pynput mouse button; \<open>str(button)\<close> is the enum's name and the member's.\<close>

datatype button = Button string

fun str_button :: "button \<Rightarrow> string" where
  "str_button (Button m) = ''Button.'' @ m"

datatype key = esc | f9 | other_key

text \<open>
  How far a callback gets before \<open>record\<close> takes the lock: it returns, it returns
  \<open>False\<close> (which stops its listener), it is about to call \<open>record\<close> with these
  arguments, or an exception leaves it.
\<close>

datatype outcome =
    Returned
  | Returned_False
  | Calls_record string "int option" "int option" path
  | Raised exn

definition on_click :: "globals \<Rightarrow> obs \<Rightarrow> int \<Rightarrow> int \<Rightarrow> button \<Rightarrow> bool \<Rightarrow> state \<Rightarrow> outcome \<times> state" where
  "on_click G ob px py b pressed s =
     (if \<not> pressed then (Returned, s)
      else
        (let btn = replace (str_button b) ''Button.'' [] in
         case capture_with_optional_crop G ob (Some px) (Some py) (files s) of
           Inl e \<Rightarrow> (Raised e, s)
         | Inr (img, fs) \<Rightarrow>
             (Calls_record (''click '' @ btn) (Some px) (Some py) img, s\<lparr>files := fs\<rparr>)))"

definition on_scroll :: "globals \<Rightarrow> obs \<Rightarrow> int \<Rightarrow> int \<Rightarrow> int \<Rightarrow> int \<Rightarrow> state \<Rightarrow> outcome \<times> state" where
  "on_scroll G ob px py dx dy s =
     (case capture_with_optional_crop G ob (Some px) (Some py) (files s) of
        Inl e \<Rightarrow> (Raised e, s)
      | Inr (img, fs) \<Rightarrow>
          (Calls_record (''scroll dx='' @ str_int dx @ '' dy='' @ str_int dy) (Some px) (Some py) img,
           s\<lparr>files := fs\<rparr>))"

text \<open>
  The \<open>except\<close> clause of \<open>on_press\<close>, \<open>print("on_press error:", e)\<close>: the state after it, and
  the exception of this \<open>print\<close>, if it raises.
\<close>

definition on_press_except :: "obs \<Rightarrow> exn \<Rightarrow> state \<Rightarrow> state \<times> exn option" where
  "on_press_except ob e s = print_line ob (''on_press error: '' @ str_exn e) s"

definition on_press :: "globals \<Rightarrow> obs \<Rightarrow> key \<Rightarrow> state \<Rightarrow> outcome \<times> state" where
  "on_press G ob k s =
     (if k = esc then (Returned_False, s\<lparr>running := False\<rparr>)
      else if k = f9 then
        (case capture ob None (files s) of
           Inl e \<Rightarrow>
             (case on_press_except ob e s of
                (s', None) \<Rightarrow> (Returned, s')
              | (s', Some e') \<Rightarrow> (Raised e', s'))
         | Inr (img, fs) \<Rightarrow> (Calls_record ''manual screenshot'' None None img, s\<lparr>files := fs\<rparr>))
      else (Returned, s))"

subsection \<open>The two listener threads\<close>

text \<open>
  \<open>start\<close> runs \<open>mouse.Listener(on_click, on_scroll)\<close> and \<open>keyboard.Listener(on_press)\<close>,
  each on a thread of its own. A thread is idle, or inside \<open>record\<close> with its arguments:
  waiting at \<open>with lock\<close>, holding the lock before line 190, after line 190, or after
  line 214 with the lock still held. A listener whose callback returned \<open>False\<close> has
  stopped; one whose callback let an exception out has died with it (pynput ends a
  listener whose callback raises). The main thread only polls \<open>running\<close> and then stops
  both listeners, which ends the schedule; it makes no move of its own.
\<close>

datatype pc =
    Idle
  | At_lock string "int option" "int option" path
  | Locked string "int option" "int option" path
  | Counted string "int option" "int option" path
  | Appended
  | Stopped
  | Died exn

record system =
  shared :: state
  pcs :: "tid \<Rightarrow> pc"

datatype event =
    Click int int button bool
  | Scroll int int int int
  | Press key

fun listener :: "event \<Rightarrow> tid" where
  "listener (Click px py b pressed) = Mouse"
| "listener (Scroll px py dx dy) = Mouse"
| "listener (Press k) = Keyboard"

fun callback :: "globals \<Rightarrow> obs \<Rightarrow> event \<Rightarrow> state \<Rightarrow> outcome \<times> state" where
  "callback G ob (Click px py b pressed) s = on_click G ob px py b pressed s"
| "callback G ob (Scroll px py dx dy) s = on_scroll G ob px py dx dy s"
| "callback G ob (Press k) s = on_press G ob k s"

fun after_callback :: "outcome \<Rightarrow> pc" where
  "after_callback Returned = Idle"
| "after_callback Returned_False = Stopped"
| "after_callback (Calls_record act px py img) = At_lock act px py img"
| "after_callback (Raised e) = Died e"

text \<open>
  An exception that leaves the \<open>with lock\<close> block releases the lock; \<open>on_click\<close> and
  \<open>on_scroll\<close> let it out, the \<open>try\<close> of \<open>on_press\<close> catches and prints it.
\<close>

fun leave_record :: "tid \<Rightarrow> obs \<Rightarrow> exn \<Rightarrow> state \<Rightarrow> state \<times> pc" where
  "leave_record Mouse ob e s = (s\<lparr>lock := None\<rparr>, Died e)"
| "leave_record Keyboard ob e s =
     (case on_press_except ob e (s\<lparr>lock := None\<rparr>) of
        (s', None) \<Rightarrow> (s', Idle)
      | (s', Some e') \<Rightarrow> (s', Died e'))"

text \<open>
  One move of one thread, chosen by the scheduler: an event reaches an idle listener,
  whose callback runs up to its call of \<open>record\<close> (the capture is taken here, before the
  lock); a waiting thread takes the free lock; the holder runs line 190; the holder runs
  lines 191 to 214; the holder releases the lock. A move that is not enabled is \<open>None\<close>.
  Lines 191 to 214 are one move: what the other thread can do in the meantime, a capture
  or the print of \<open>on_press\<close>, writes a file or a console line and leaves \<open>steps\<close>, \<open>lock\<close>
  and \<open>step_counter\<close> alone. When the \<open>print\<close> of line 214 raises, that move ends with
  the lock released and the exception on its way out of the callback.
\<close>

datatype label =
    Deliver event obs
  | Acquire tid
  | Increment tid
  | Build tid obs
  | Release tid

fun step :: "globals \<Rightarrow> label \<Rightarrow> system \<Rightarrow> system option" where
  "step G (Deliver ev ob) c =
     (if pcs c (listener ev) = Idle then
        (case callback G ob ev (shared c) of
           (out, s) \<Rightarrow> Some \<lparr>shared = s, pcs = (pcs c)(listener ev := after_callback out)\<rparr>)
      else None)"
| "step G (Acquire t) c =
     (case pcs c t of
        At_lock act px py img \<Rightarrow>
          if lock (shared c) = None
          then Some \<lparr>shared = (shared c)\<lparr>lock := Some t\<rparr>, pcs = (pcs c)(t := Locked act px py img)\<rparr>
          else None
      | _ \<Rightarrow> None)"
| "step G (Increment t) c =
     (case pcs c t of
        Locked act px py img \<Rightarrow>
          Some \<lparr>shared = record_incr (shared c), pcs = (pcs c)(t := Counted act px py img)\<rparr>
      | _ \<Rightarrow> None)"
| "step G (Build t ob) c =
     (case pcs c t of
        Counted act px py img \<Rightarrow>
          (case record_body G ob act px py img (shared c) of
             (s, None) \<Rightarrow> Some \<lparr>shared = s, pcs = (pcs c)(t := Appended)\<rparr>
           | (s, Some e) \<Rightarrow>
               (case leave_record t ob e s of
                  (s', p) \<Rightarrow> Some \<lparr>shared = s', pcs = (pcs c)(t := p)\<rparr>))
      | _ \<Rightarrow> None)"
| "step G (Release t) c =
     (case pcs c t of
        Appended \<Rightarrow> Some \<lparr>shared = (shared c)\<lparr>lock := None\<rparr>, pcs = (pcs c)(t := Idle)\<rparr>
      | _ \<Rightarrow> None)"

fun run :: "globals \<Rightarrow> label list \<Rightarrow> system \<Rightarrow> system option" where
  "run G [] c = Some c"
| "run G (l # ls) c = (case step G l c of None \<Rightarrow> None | Some c' \<Rightarrow> run G ls c')"

definition init :: system where
  "init = \<lparr>shared = \<lparr>steps = [], running = True, lock = None, step_counter = 0,
                      files = Map.empty, console = []\<rparr>,
           pcs = (\<lambda>t. Idle)\<rparr>"

text \<open>The ledger after a schedule, from the start of the session.\<close>

definition ledger :: "globals \<Rightarrow> label list \<Rightarrow> Step list" where
  "ledger G ls = (case run G ls init of None \<Rightarrow> [] | Some c \<Rightarrow> steps (shared c))"

text \<open>The whole system after a schedule that is enabled from the start.\<close>

definition after_schedule :: "globals \<Rightarrow> label list \<Rightarrow> system" where
  "after_schedule G ls = (case run G ls init of None \<Rightarrow> init | Some c \<Rightarrow> c)"

text \<open>One event handled from delivery to the release of the lock, with nothing in between.\<close>

definition handled :: "event \<Rightarrow> obs \<Rightarrow> label list" where
  "handled ev ob =
     [Deliver ev ob, Acquire (listener ev), Increment (listener ev),
      Build (listener ev) ob, Release (listener ev)]"

text \<open>\<open>record\<close> as one call, by a thread that finds the lock free (\<open>record\<close> is a
  keyword of Isabelle, hence the suffix).\<close>

definition record_call ::
  "globals \<Rightarrow> obs \<Rightarrow> string \<Rightarrow> int option \<Rightarrow> int option \<Rightarrow> path \<Rightarrow> state \<Rightarrow> state \<times> exn option" where
  "record_call G ob act px py img_path s =
     (case record_body G ob act px py img_path (record_incr s) of
        (s', r) \<Rightarrow> (s'\<lparr>lock := None\<rparr>, r))"

subsection \<open>The forms of an action\<close>

text \<open>The three strings the callbacks build for \<open>action\<close> (lines 224, 228 and 238).\<close>

definition click_action :: "button \<Rightarrow> string" where
  "click_action b = ''click '' @ replace (str_button b) ''Button.'' []"

definition scroll_action :: "int \<Rightarrow> int \<Rightarrow> string" where
  "scroll_action dx dy = ''scroll dx='' @ str_int dx @ '' dy='' @ str_int dy"

definition manual_action :: string where
  "manual_action = ''manual screenshot''"

definition is_action :: "string \<Rightarrow> bool" where
  "is_action a \<longleftrightarrow>
     (\<exists>b. a = click_action b) \<or> (\<exists>dx dy. a = scroll_action dx dy) \<or> a = manual_action"

subsection \<open>Sample inputs\<close>

text \<open>A black screen of 1920 by 1080 pixels.\<close>

definition black :: "rgb raster" where
  "black = \<lparr>im_width = 1920, im_height = 1080, im_pixel = (\<lambda>px py. (0, 0, 0))\<rparr>"

text \<open>
  A stand-in for Pillow's ellipse with an outline and a width, for the circles the
  recorder draws: of the pixels in the box it paints those in the band between the
  circle inscribed in the box and the one \<open>w\<close> pixels inside it, laying the colour over
  the pixel with its alpha. Coordinates are doubled, so that the centre needs no halves.
\<close>

definition on_ring :: "region \<Rightarrow> int \<Rightarrow> int \<Rightarrow> int \<Rightarrow> bool" where
  "on_ring box w px py =
     (case box of (x0, y0, x1, y1) \<Rightarrow>
        (let d = (2 * px - (x0 + x1)) * (2 * px - (x0 + x1))
               + (2 * py - (y0 + y1)) * (2 * py - (y0 + y1))
         in in_box box px py \<and>
            (x1 - x0 - 2 * w) * (x1 - x0 - 2 * w) \<le> d \<and> d \<le> (x1 - x0) * (x1 - x0)))"

definition lay_over :: "rgba \<Rightarrow> rgba \<Rightarrow> rgba" where
  "lay_over col p =
     (case (col, p) of
        ((r, g, b, a), (r', g', b', a')) \<Rightarrow>
          ((r * a + r' * (255 - a)) div 255, (g * a + g' * (255 - a)) div 255,
           (b * a + b' * (255 - a)) div 255, 255))"

definition paint_ring :: "region \<Rightarrow> rgba \<Rightarrow> int \<Rightarrow> rgba raster \<Rightarrow> rgba raster" where
  "paint_ring box col w im =
     im\<lparr>im_pixel :=
          (\<lambda>px py. if on_ring box w px py then lay_over col (im_pixel im px py)
                    else im_pixel im px py)\<rparr>"

definition windows_pc :: globals where
  "windows_pc = \<lparr>CROP_RADIUS = 0, is_windows = True, gw = True, win32gui = True,
                 win32process = True, ellipse = paint_ring\<rparr>"

definition linux_pc :: globals where
  "linux_pc = \<lparr>CROP_RADIUS = 0, is_windows = False, gw = True, win32gui = False,
               win32process = False, ellipse = paint_ring\<rparr>"

text \<open>Notepad is in front, the screen can be read, and the clock shows the given millisecond.\<close>

definition desktop :: "int \<Rightarrow> obs" where
  "desktop ms =
     \<lparr>time_ms = ms, now_human = ''2023-11-14 22:13:20'',
      screenshot = (\<lambda>r. Inr black),
      getActiveWindow = Inr (Some \<lparr>win_title = Inr (Some ''Notepad''), hWnd = Some 4242\<rparr>),
      GetWindowThreadProcessId = (\<lambda>h. Inr (1, 77)),
      Process_name = (\<lambda>p. Inr ''notepad.exe''),
      GetForegroundWindow = Inr 4242,
      GetWindowText = (\<lambda>h. Inr ''Notepad''),
      pil_fault = None,
      print_fault = (\<lambda>line. None)\<rparr>"

text \<open>The same, with a display that cannot be read.\<close>

definition no_display :: "int \<Rightarrow> obs" where
  "no_display ms = (desktop ms)\<lparr>screenshot := (\<lambda>r. Inl (Exception ''screen grab failed''))\<rparr>"

text \<open>The same, with every window lookup raising.\<close>

definition no_window :: "int \<Rightarrow> obs" where
  "no_window ms =
     (desktop ms)\<lparr>getActiveWindow := Inl (Exception ''no window''),
                  GetForegroundWindow := Inl (Exception ''no window'')\<rparr>"

text \<open>The same, with only the process lookup raising.\<close>

definition no_process :: "int \<Rightarrow> obs" where
  "no_process ms = (desktop ms)\<lparr>Process_name := (\<lambda>p. Inl (Exception ''access denied''))\<rparr>"

text \<open>The same, with only \<open>gw.getActiveWindow()\<close> raising.\<close>

definition no_pygetwindow :: "int \<Rightarrow> obs" where
  "no_pygetwindow ms = (desktop ms)\<lparr>getActiveWindow := Inl (Exception ''no window'')\<rparr>"

text \<open>The same, with a console that refuses every line of \<open>record\<close>.\<close>

definition bad_console :: "int \<Rightarrow> obs" where
  "bad_console ms =
     (desktop ms)\<lparr>print_fault :=
        (\<lambda>line. if prefix ''['' line then Some (Exception ''UnicodeEncodeError'') else None)\<rparr>"

text \<open>The same, with Pillow failing to read or write the image.\<close>

definition bad_image :: "int \<Rightarrow> obs" where
  "bad_image ms = (desktop ms)\<lparr>pil_fault := Some (Exception ''cannot identify image file'')\<rparr>"

subsection \<open>Invariants of a session\<close>

text \<open>The places of \<open>record\<close> inside the \<open>with lock\<close> block, and the one after line 190.\<close>

fun holds_lock :: "pc \<Rightarrow> bool" where
  "holds_lock (Locked act px py img) = True"
| "holds_lock (Counted act px py img) = True"
| "holds_lock Appended = True"
| "holds_lock p = False"

fun counted :: "pc \<Rightarrow> bool" where
  "counted (Counted act px py img) = True"
| "counted p = False"

text \<open>The \<open>action\<close> argument of a call of \<open>record\<close> that is under way.\<close>

fun pending_action :: "pc \<Rightarrow> string option" where
  "pending_action (At_lock act px py img) = Some act"
| "pending_action (Locked act px py img) = Some act"
| "pending_action (Counted act px py img) = Some act"
| "pending_action p = None"

text \<open>
  The lock is held by exactly the thread that is inside the block, the indices of the
  ledger are \<open>1, \<dots>, N\<close>, and the counter is \<open>N\<close>, or \<open>N + 1\<close> between line 190 and the
  append.
\<close>

definition ledger_inv :: "system \<Rightarrow> bool" where
  "ledger_inv c \<longleftrightarrow>
     (\<forall>t. holds_lock (pcs c t) \<longleftrightarrow> lock (shared c) = Some t) \<and>
     map idx (steps (shared c)) = [1 .. int (length (steps (shared c)))] \<and>
     step_counter (shared c) =
       int (length (steps (shared c))) + (if \<exists>t. counted (pcs c t) then 1 else 0)"

definition actions_inv :: "system \<Rightarrow> bool" where
  "actions_inv c \<longleftrightarrow>
     (\<forall>s \<in> set (steps (shared c)). is_action (action s)) \<and>
     (\<forall>t a. pending_action (pcs c t) = Some a \<longrightarrow> is_action a)"

text \<open>
  What the recorder relies on from a Pillow drawing call: the image keeps its size, and
  no pixel outside the call's bounding box changes.
\<close>

definition draws_inside_box ::
  "(region \<Rightarrow> rgba \<Rightarrow> int \<Rightarrow> rgba raster \<Rightarrow> rgba raster) \<Rightarrow> bool" where
  "draws_inside_box f \<longleftrightarrow>
     (\<forall>box col w im.
        im_width (f box col w im) = im_width im \<and>
        im_height (f box col w im) = im_height im \<and>
        (\<forall>px py. \<not> in_box box px py \<longrightarrow> im_pixel (f box col w im) px py = im_pixel im px py))"

text \<open>
  A schedule of the two threads: the mouse thread captures a click, then the keyboard
  thread captures an F9 press and records it, and only then the mouse thread records.
\<close>

definition overtaken :: "label list" where
  "overtaken =
     [Deliver (Click 100 200 (Button ''left'') True) (desktop 1000),
      Deliver (Press f9) (desktop 1001),
      Acquire Keyboard, Increment Keyboard, Build Keyboard (desktop 1002), Release Keyboard,
      Acquire Mouse, Increment Mouse, Build Mouse (desktop 1003), Release Mouse]"

text \<open>
  Scenarios A, B and C of the specification, one after the other: a left click at
  (100, 200), a scroll by (0, -3) at (50, 50), and an F9 press.
\<close>

definition scenarios :: "label list" where
  "scenarios =
     handled (Click 100 200 (Button ''left'') True) (desktop 1000) @
     handled (Scroll 50 50 0 (- 3)) (desktop 1001) @
     handled (Press f9) (desktop 1002)"

text \<open>A click and a scroll whose captures read the same millisecond of the clock.\<close>

definition same_millisecond :: "label list" where
  "same_millisecond =
     handled (Click 100 200 (Button ''left'') True) (desktop 1700000000000) @
     handled (Scroll 50 50 0 (- 3)) (desktop 1700000000000)"

section \<open>Properties\<close>

subsection \<open>Decimal numerals\<close>

lemma digits_numeral [simp]:
  "digits (numeral k) =
     (if (numeral k :: nat) < 10 then [digit_char (numeral k)]
      else digits (numeral k div 10) @ [digit_char (numeral k mod 10)])"
  by (rule digits.simps)

lemma digits_0 [simp]: "digits 0 = ''0''"
  by (simp add: digits.simps digit_char_def)

lemma digits_1 [simp]: "digits (Suc 0) = ''1''"
  by (simp add: digits.simps digit_char_def)

lemma digits_not_Nil: "digits n \<noteq> []"
  by (subst digits.simps) simp

lemma digit_char_inj: "a < 10 \<Longrightarrow> b < 10 \<Longrightarrow> digit_char a = digit_char b \<Longrightarrow> a = b"
proof -
  assume a: "a < 10" and b: "b < 10" and e: "digit_char a = digit_char b"
  have d: "distinct ''0123456789''" by simp
  have "a < length ''0123456789''" and "b < length ''0123456789''" using a b by simp_all
  with d e show "a = b" unfolding digit_char_def by (simp only: nth_eq_iff_index_eq)
qed

lemma digit_char_not_minus: "d < 10 \<Longrightarrow> digit_char d \<noteq> CHR ''-''"
proof -
  assume "d < 10"
  then have "d \<in> {0,1,2,3,4,5,6,7,8,9}" by auto
  then show ?thesis by (auto simp: digit_char_def)
qed

lemma hd_digits_not_minus: "hd (digits n) \<noteq> CHR ''-''"
proof (induction n rule: digits.induct)
  case (1 n)
  show ?case
  proof (cases "n < 10")
    case True
    then show ?thesis by (subst digits.simps) (simp add: digit_char_not_minus)
  next
    case False
    with 1 have "hd (digits (n div 10)) \<noteq> CHR ''-''" by simp
    with False show ?thesis
      by (subst digits.simps) (simp add: digits_not_Nil)
  qed
qed

lemma digits_inj: "digits n = digits m \<Longrightarrow> n = m"
proof (induction n arbitrary: m rule: digits.induct)
  case (1 n)
  show ?case
  proof (cases "n < 10")
    case True
    have n: "digits n = [digit_char n]" using True by (subst digits.simps) simp
    show ?thesis
    proof (cases "m < 10")
      case m: True
      then have "digits m = [digit_char m]" by (subst digits.simps) simp
      with n "1.prems" True m show ?thesis by (simp add: digit_char_inj)
    next
      case m: False
      then have "digits m = digits (m div 10) @ [digit_char (m mod 10)]"
        by (subst digits.simps) simp
      with n "1.prems" have "digits (m div 10) = []" by simp
      then show ?thesis by (simp add: digits_not_Nil)
    qed
  next
    case False
    have n: "digits n = digits (n div 10) @ [digit_char (n mod 10)]"
      using False by (subst digits.simps) simp
    show ?thesis
    proof (cases "m < 10")
      case m: True
      then have "digits m = [digit_char m]" by (subst digits.simps) simp
      with n "1.prems" have "digits (n div 10) = []" by simp
      then show ?thesis by (simp add: digits_not_Nil)
    next
      case m: False
      then have "digits m = digits (m div 10) @ [digit_char (m mod 10)]"
        by (subst digits.simps) simp
      with n "1.prems" have e: "digits (n div 10) = digits (m div 10)"
        and d: "digit_char (n mod 10) = digit_char (m mod 10)" by simp_all
      from "1.IH" [OF False e] have q: "n div 10 = m div 10" .
      from d have r: "n mod 10 = m mod 10" by (rule digit_char_inj [rotated 2]) simp_all
      from q r show ?thesis by (metis div_mult_mod_eq)
    qed
  qed
qed

lemma str_int_inj: "str_int i = str_int j \<Longrightarrow> i = j"
proof -
  assume e: "str_int i = str_int j"
  have neg: "\<And>n m. CHR ''-'' # digits n \<noteq> digits m"
  proof
    fix n m assume "CHR ''-'' # digits n = digits m"
    then have "hd (digits m) = CHR ''-''" by (metis list.sel(1))
    then show False by (simp add: hd_digits_not_minus)
  qed
  show "i = j"
  proof (cases "i < 0"; cases "j < 0")
    assume "i < 0" "j < 0"
    with e have "nat (- i) = nat (- j)" by (simp add: str_int_def digits_inj)
    with \<open>i < 0\<close> \<open>j < 0\<close> show ?thesis by simp
  next
    assume "i < 0" "\<not> j < 0"
    with e neg show ?thesis by (simp add: str_int_def)
  next
    assume "\<not> i < 0" "j < 0"
    with e neg [symmetric] show ?thesis by (simp add: str_int_def) 
  next
    assume "\<not> i < 0" "\<not> j < 0"
    with e have "nat i = nat j" by (simp add: str_int_def digits_inj)
    with \<open>\<not> i < 0\<close> \<open>\<not> j < 0\<close> show ?thesis by simp
  qed
qed

subsection \<open>The window inspector\<close>

lemma active_window_info_returns: "\<exists>title app. active_window_info G ob = Inr (title, app)"
  by (simp add: active_window_info_def Let_def)

lemma via_pygetwindow_raised:
  "via_pygetwindow G ob v = (v', Some e) \<Longrightarrow> v' = v"
  by (auto simp: via_pygetwindow_def Let_def split: sum.splits option.splits if_splits)

lemma via_win32_raised:
  "via_win32 G ob v = (v', Some e) \<Longrightarrow> v' = v"
  by (auto simp: via_win32_def Let_def split: sum.splits option.splits if_splits)

lemma via_pygetwindow_app:
  "\<not> is_windows G \<Longrightarrow> snd (fst (via_pygetwindow G ob v)) = snd v"
  by (auto simp: via_pygetwindow_def Let_def split: sum.splits option.splits)

lemma active_window_info_not_windows:
  "\<not> is_windows G \<Longrightarrow> active_window_info G ob = Inr v \<Longrightarrow> snd v = []"
  by (auto simp: active_window_info_def Let_def except_pass_def via_pygetwindow_app
      split: if_splits)

lemma process_of_window_fails:
  assumes "isl (GetWindowThreadProcessId ob h) \<or> (\<forall>p. isl (Process_name ob p))"
  shows "fst (process_of_window ob h app) = app"
proof (cases "GetWindowThreadProcessId ob h")
  case (Inl e)
  then show ?thesis by (simp add: process_of_window_def)
next
  case (Inr tp)
  with assms have "\<forall>p. isl (Process_name ob p)" by simp
  then have "isl (Process_name ob (snd tp))" ..
  then obtain e where "Process_name ob (snd tp) = Inl e"
    by (cases "Process_name ob (snd tp)") simp_all
  with Inr show ?thesis by (cases tp) (simp add: process_of_window_def)
qed

lemma via_pygetwindow_app_fails:
  "(\<forall>h. isl (GetWindowThreadProcessId ob h)) \<or> (\<forall>p. isl (Process_name ob p)) \<Longrightarrow>
     snd (fst (via_pygetwindow G ob v)) = snd v"
  by (auto simp: via_pygetwindow_def Let_def except_pass_def process_of_window_fails
      split: sum.splits option.splits)

lemma via_win32_app_fails:
  "(\<forall>h. isl (GetWindowThreadProcessId ob h)) \<or> (\<forall>p. isl (Process_name ob p)) \<Longrightarrow>
     snd (fst (via_win32 G ob v)) = snd v"
  by (auto simp: via_win32_def Let_def except_pass_def process_of_window_fails
      split: sum.splits option.splits)

lemma active_window_info_app_fails:
  "(\<forall>h. isl (GetWindowThreadProcessId ob h)) \<or> (\<forall>p. isl (Process_name ob p)) \<Longrightarrow>
     \<exists>title. active_window_info G ob = Inr (title, [])"
proof -
  assume f: "(\<forall>h. isl (GetWindowThreadProcessId ob h)) \<or> (\<forall>p. isl (Process_name ob p))"
  obtain title app where w: "active_window_info G ob = Inr (title, app)"
    using active_window_info_returns by blast
  then have "app = snd (case active_window_info G ob of Inr v \<Rightarrow> v)" by simp
  also have "\<dots> = []"
    by (simp add: active_window_info_def Let_def except_pass_def
        via_pygetwindow_app_fails [OF f] via_win32_app_fails [OF f])
  finally show ?thesis using w by simp
qed

subsection \<open>record\<close>

lemma record_body_appends:
  obtains st fs cs r where
    "record_body G ob act px py img s =
       (s\<lparr>steps := steps s @ [st], files := fs, console := cs\<rparr>, r)"
    and "idx st = step_counter s" and "action st = act" and "ts st = now_human ob"
    and "pos_x st = px" and "pos_y st = py"
    and "img_rel st = ''images/'' @ path_name img"
    and "active_window_info G ob = Inr (window_title st, app_name st)"
    and "img_mark_rel st =
           (if fst (mark_image G ob act px py img (files s)) \<noteq> []
            then fst (mark_image G ob act px py img (files s))
            else ''images/'' @ path_name img)"
    and "fs = snd (mark_image G ob act px py img (files s))"
    and "r = print_fault ob (console_line (now_human ob) act px py (path_name img)
                               (window_title st) (app_name st))"
    and "cs = (if r = None
               then console s @ [console_line (now_human ob) act px py (path_name img)
                                   (window_title st) (app_name st)]
               else console s)"
proof -
  obtain title app where w: "active_window_info G ob = Inr (title, app)"
    using active_window_info_returns by blast
  obtain m fs where a: "mark_image G ob act px py img (files s) = (m, fs)"
    by (cases "mark_image G ob act px py img (files s)")
  let ?st = "\<lparr>idx = step_counter s, ts = now_human ob, action = act,
                            pos_x = px, pos_y = py, window_title = title, app_name = app,
                            img_rel = ''images/'' @ path_name img,
                            img_mark_rel = (if m \<noteq> [] then m
                                            else ''images/'' @ path_name img)\<rparr>"
  let ?line = "console_line (now_human ob) act px py (path_name img) title app"
  show thesis
  proof (rule that [where st = ?st and fs = fs and r = "print_fault ob ?line"
        and cs = "if print_fault ob ?line = None then console s @ [?line] else console s"])
    show "record_body G ob act px py img s =
       (s\<lparr>steps := steps s @ [?st], files := fs,
          console := (if print_fault ob ?line = None then console s @ [?line] else console s)\<rparr>,
        print_fault ob ?line)"
      by (cases "print_fault ob ?line") (simp_all add: record_body_def w a Let_def print_line_def)
  qed (simp_all add: w a)
qed

subsection \<open>Callbacks\<close>

lemma callback_frame:
  "callback G ob ev s = (out, s') \<Longrightarrow>
     steps s' = steps s \<and> lock s' = lock s \<and> step_counter s' = step_counter s"
  by (cases ev)
    (auto simp: on_click_def on_scroll_def on_press_def on_press_except_def print_line_def
      Let_def split: if_splits sum.splits prod.splits option.splits)

lemma callback_action:
  "callback G ob ev s = (Calls_record act px py img, s') \<Longrightarrow> is_action act"
  by (cases ev)
    (auto simp: on_click_def on_scroll_def on_press_def is_action_def click_action_def
      scroll_action_def manual_action_def Let_def
      split: if_splits sum.splits prod.splits option.splits)

lemma after_callback_outside [simp]:
  "\<not> holds_lock (after_callback out)" "\<not> counted (after_callback out)"
  by (cases out; simp)+

lemma pending_after_callback:
  "pending_action (after_callback out) = Some a \<Longrightarrow> \<exists>px py img. out = Calls_record a px py img"
  by (cases out) simp_all

subsection \<open>Runs\<close>

lemma run_append: "run G (ls @ ms) c = (case run G ls c of None \<Rightarrow> None | Some c' \<Rightarrow> run G ms c')"
  by (induction ls arbitrary: c) (simp_all split: option.splits)

lemma run_invariant:
  assumes step: "\<And>c l c'. P c \<Longrightarrow> step G l c = Some c' \<Longrightarrow> P c'"
    and start: "P c0" and run: "run G ls c0 = Some c"
  shows "P c"
  using start run
proof (induction ls arbitrary: c0)
  case Nil
  then show ?case by simp
next
  case (Cons l ls)
  from Cons.prems(2) obtain c1 where 1: "step G l c0 = Some c1" and 2: "run G ls c1 = Some c"
    by (auto split: option.splits)
  from step [OF Cons.prems(1) 1] have "P c1" .
  from Cons.IH [OF this 2] show ?case .
qed

text \<open>What each enabled move does.\<close>

lemma step_Deliver:
  assumes "step G (Deliver ev ob) c = Some c'"
  obtains out s where "pcs c (listener ev) = Idle" and "callback G ob ev (shared c) = (out, s)"
    and "c' = \<lparr>shared = s, pcs = (pcs c)(listener ev := after_callback out)\<rparr>"
  using assms by (auto split: if_splits prod.splits)

lemma step_Acquire:
  assumes "step G (Acquire t) c = Some c'"
  obtains act px py img where "pcs c t = At_lock act px py img" and "lock (shared c) = None"
    and "c' = \<lparr>shared = (shared c)\<lparr>lock := Some t\<rparr>, pcs = (pcs c)(t := Locked act px py img)\<rparr>"
  using assms by (auto split: pc.splits if_splits)

lemma step_Increment:
  assumes "step G (Increment t) c = Some c'"
  obtains act px py img where "pcs c t = Locked act px py img"
    and "c' = \<lparr>shared = record_incr (shared c), pcs = (pcs c)(t := Counted act px py img)\<rparr>"
  using assms by (auto split: pc.splits)

lemma leave_record_outside:
  assumes "leave_record t ob e s = (s', p)"
  shows "steps s' = steps s" and "files s' = files s" and "step_counter s' = step_counter s"
    and "lock s' = None" and "\<not> holds_lock p" and "\<not> counted p" and "pending_action p = None"
    and "console s' = console s \<or> console s' = console s @ [''on_press error: '' @ str_exn e]"
  using assms
  by (cases t; auto simp: on_press_except_def print_line_def split: option.splits prod.splits)+

lemma step_Build:
  assumes "step G (Build t ob) c = Some c'"
  obtains act px py img sh p where "pcs c t = Counted act px py img"
    and "c' = \<lparr>shared = sh, pcs = (pcs c)(t := p)\<rparr>"
    and "steps sh = steps (fst (record_body G ob act px py img (shared c)))"
    and "files sh = files (fst (record_body G ob act px py img (shared c)))"
    and "step_counter sh = step_counter (shared c)"
    and "\<not> counted p" and "pending_action p = None"
    and "(p = Appended \<and> lock sh = lock (shared c)) \<or> (\<not> holds_lock p \<and> lock sh = None)"
    and "console sh = console (fst (record_body G ob act px py img (shared c))) \<or>
         (\<exists>e. console sh = console (fst (record_body G ob act px py img (shared c)))
                  @ [''on_press error: '' @ str_exn e])"
proof -
  from assms obtain act px py img where at: "pcs c t = Counted act px py img"
    by (auto split: pc.splits)
  obtain st fs cs r where rb: "record_body G ob act px py img (shared c) =
       ((shared c)\<lparr>steps := steps (shared c) @ [st], files := fs, console := cs\<rparr>, r)"
    by (rule record_body_appends [of G ob act px py img "shared c"])
  let ?mid = "(shared c)\<lparr>steps := steps (shared c) @ [st], files := fs, console := cs\<rparr>"
  show thesis
  proof (cases r)
    case None
    with assms at rb have "c' = \<lparr>shared = ?mid, pcs = (pcs c)(t := Appended)\<rparr>" by simp
    with at show thesis by (rule that) (simp_all add: rb)
  next
    case (Some e)
    obtain s' p where lr: "leave_record t ob e ?mid = (s', p)"
      by (cases "leave_record t ob e ?mid")
    with assms at rb Some have c': "c' = \<lparr>shared = s', pcs = (pcs c)(t := p)\<rparr>" by simp
    note o = leave_record_outside [OF lr]
    from at c' show thesis
    proof (rule that)
      show "steps s' = steps (fst (record_body G ob act px py img (shared c)))"
        using o(1) by (simp add: rb)
      show "files s' = files (fst (record_body G ob act px py img (shared c)))"
        using o(2) by (simp add: rb)
      show "step_counter s' = step_counter (shared c)" using o(3) by simp
      show "\<not> counted p" by (rule o(6))
      show "pending_action p = None" by (rule o(7))
      show "(p = Appended \<and> lock s' = lock (shared c)) \<or> (\<not> holds_lock p \<and> lock s' = None)"
        using o(4) o(5) by simp
      show "console s' = console (fst (record_body G ob act px py img (shared c))) \<or>
         (\<exists>e. console s' = console (fst (record_body G ob act px py img (shared c)))
                  @ [''on_press error: '' @ str_exn e])"
        using o(8) by (auto simp: rb)
    qed
  qed
qed

lemma step_Release:
  assumes "step G (Release t) c = Some c'"
  obtains "pcs c t = Appended"
    and "c' = \<lparr>shared = (shared c)\<lparr>lock := None\<rparr>, pcs = (pcs c)(t := Idle)\<rparr>"
  using assms by (auto split: pc.splits)

subsection \<open>The ledger invariant\<close>

lemma counted_holds_lock: "counted p \<Longrightarrow> holds_lock p"
  by (cases p) simp_all

lemma upto_Suc_length: "[1 .. 1 + int n] = [1 .. int n] @ [int n + 1]"
  by (simp add: upto_rec2 add.commute)

lemma ledger_invI:
  assumes "\<And>t. holds_lock (pcs c t) \<longleftrightarrow> lock (shared c) = Some t"
    and "map idx (steps (shared c)) = [1 .. int (length (steps (shared c)))]"
    and "step_counter (shared c) =
       int (length (steps (shared c))) + (if \<exists>t. counted (pcs c t) then 1 else 0)"
  shows "ledger_inv c"
  unfolding ledger_inv_def using assms by blast

lemma ledger_inv_lock: "ledger_inv c \<Longrightarrow> holds_lock (pcs c t) \<longleftrightarrow> lock (shared c) = Some t"
  unfolding ledger_inv_def by blast

lemma ledger_inv_idx:
  "ledger_inv c \<Longrightarrow> map idx (steps (shared c)) = [1 .. int (length (steps (shared c)))]"
  unfolding ledger_inv_def by blast

lemma ledger_inv_counter:
  "ledger_inv c \<Longrightarrow> step_counter (shared c) =
       int (length (steps (shared c))) + (if \<exists>t. counted (pcs c t) then 1 else 0)"
  unfolding ledger_inv_def by blast

lemma ledger_inv_init: "ledger_inv init"
  by (rule ledger_invI) (simp_all add: init_def)

lemma ledger_inv_Deliver:
  assumes inv: "ledger_inv c" and st: "step G (Deliver ev ob) c = Some c'"
  shows "ledger_inv c'"
proof -
  from st obtain out s where idle: "pcs c (listener ev) = Idle"
    and cb: "callback G ob ev (shared c) = (out, s)"
    and c': "c' = \<lparr>shared = s, pcs = (pcs c)(listener ev := after_callback out)\<rparr>"
    by (rule step_Deliver)
  from callback_frame [OF cb] have fr: "steps s = steps (shared c)" "lock s = lock (shared c)"
    "step_counter s = step_counter (shared c)" by simp_all
  from ledger_inv_lock [OF inv, of "listener ev"] idle
  have nl: "lock (shared c) \<noteq> Some (listener ev)" by simp
  have cnt: "counted (pcs c' t) = counted (pcs c t)" for t
    using idle by (cases "t = listener ev") (simp_all add: c')
  show ?thesis
  proof (rule ledger_invI)
    fix t show "holds_lock (pcs c' t) \<longleftrightarrow> lock (shared c') = Some t"
      using ledger_inv_lock [OF inv, of t] nl
      by (cases "t = listener ev") (simp_all add: c' fr)
  next
    show "map idx (steps (shared c')) = [1 .. int (length (steps (shared c')))]"
      using ledger_inv_idx [OF inv] by (simp add: c' fr)
  next
    show "step_counter (shared c') =
       int (length (steps (shared c'))) + (if \<exists>t. counted (pcs c' t) then 1 else 0)"
      using ledger_inv_counter [OF inv] by (simp only: cnt) (simp add: c' fr)
  qed
qed

lemma ledger_inv_Acquire:
  assumes inv: "ledger_inv c" and st: "step G (Acquire t) c = Some c'"
  shows "ledger_inv c'"
proof -
  from st obtain act px py img where at: "pcs c t = At_lock act px py img"
    and free: "lock (shared c) = None"
    and c': "c' = \<lparr>shared = (shared c)\<lparr>lock := Some t\<rparr>, pcs = (pcs c)(t := Locked act px py img)\<rparr>"
    by (rule step_Acquire)
  have none: "\<not> holds_lock (pcs c u)" for u
    using ledger_inv_lock [OF inv, of u] free by simp
  have cnt: "counted (pcs c' u) = counted (pcs c u)" for u
    using at by (cases "u = t") (simp_all add: c')
  show ?thesis
  proof (rule ledger_invI)
    fix u show "holds_lock (pcs c' u) \<longleftrightarrow> lock (shared c') = Some u"
      using none [of u] by (cases "u = t") (auto simp: c')
  next
    show "map idx (steps (shared c')) = [1 .. int (length (steps (shared c')))]"
      using ledger_inv_idx [OF inv] by (simp add: c')
  next
    show "step_counter (shared c') =
       int (length (steps (shared c'))) + (if \<exists>t. counted (pcs c' t) then 1 else 0)"
      using ledger_inv_counter [OF inv] by (simp only: cnt) (simp add: c')
  qed
qed

lemma ledger_inv_Increment:
  assumes inv: "ledger_inv c" and st: "step G (Increment t) c = Some c'"
  shows "ledger_inv c'"
proof -
  from st obtain act px py img where at: "pcs c t = Locked act px py img"
    and c': "c' = \<lparr>shared = record_incr (shared c), pcs = (pcs c)(t := Counted act px py img)\<rparr>"
    by (rule step_Increment)
  from ledger_inv_lock [OF inv, of t] at have held: "lock (shared c) = Some t" by simp
  have nc: "\<not> counted (pcs c u)" for u
  proof
    assume a: "counted (pcs c u)"
    then have "holds_lock (pcs c u)" by (rule counted_holds_lock)
    with ledger_inv_lock [OF inv, of u] held have "u = t" by simp
    with a at show False by simp
  qed
  have "counted (pcs c' t)" by (simp add: c')
  then have ex: "\<exists>u. counted (pcs c' u)" ..
  show ?thesis
  proof (rule ledger_invI)
    fix u show "holds_lock (pcs c' u) \<longleftrightarrow> lock (shared c') = Some u"
      using ledger_inv_lock [OF inv, of u] held
      by (cases "u = t") (simp_all add: c' record_incr_def)
  next
    show "map idx (steps (shared c')) = [1 .. int (length (steps (shared c')))]"
      using ledger_inv_idx [OF inv] by (simp add: c' record_incr_def)
  next
    show "step_counter (shared c') =
       int (length (steps (shared c'))) + (if \<exists>t. counted (pcs c' t) then 1 else 0)"
      using ledger_inv_counter [OF inv] ex nc by (simp add: c' record_incr_def)
  qed
qed

lemma ledger_inv_Build:
  assumes inv: "ledger_inv c" and st: "step G (Build t ob) c = Some c'"
  shows "ledger_inv c'"
proof -
  from st obtain act px py img sh p where at: "pcs c t = Counted act px py img"
    and c': "c' = \<lparr>shared = sh, pcs = (pcs c)(t := p)\<rparr>"
    and s1: "steps sh = steps (fst (record_body G ob act px py img (shared c)))"
    and s3: "step_counter sh = step_counter (shared c)"
    and pc: "\<not> counted p"
    and lp: "(p = Appended \<and> lock sh = lock (shared c)) \<or> (\<not> holds_lock p \<and> lock sh = None)"
    by (rule step_Build)
  from ledger_inv_lock [OF inv, of t] at have held: "lock (shared c) = Some t" by simp
  have "counted (pcs c t)" using at by simp
  then have ex: "\<exists>u. counted (pcs c u)" ..
  with ledger_inv_counter [OF inv]
  have cnt: "step_counter (shared c) = int (length (steps (shared c))) + 1" by simp
  have nc: "\<not> counted (pcs c' u)" for u
  proof
    assume a: "counted (pcs c' u)"
    with pc have ne: "u \<noteq> t" by (auto simp: c' split: if_splits)
    with a have "holds_lock (pcs c u)" by (simp add: c' counted_holds_lock)
    with ledger_inv_lock [OF inv, of u] held ne show False by simp
  qed
  obtain sp fs cs r where rb: "record_body G ob act px py img (shared c) =
       ((shared c)\<lparr>steps := steps (shared c) @ [sp], files := fs, console := cs\<rparr>, r)"
    and ix: "idx sp = step_counter (shared c)"
    by (rule record_body_appends [of G ob act px py img "shared c"])
  have sh: "steps (shared c') = steps (shared c) @ [sp]"
    "step_counter (shared c') = step_counter (shared c)"
    by (simp_all add: c' s1 s3 rb)
  show ?thesis
  proof (rule ledger_invI)
    fix u show "holds_lock (pcs c' u) \<longleftrightarrow> lock (shared c') = Some u"
    proof (cases "u = t")
      case True
      with lp held show ?thesis by (auto simp: c')
    next
      case False
      with ledger_inv_lock [OF inv, of u] held lp show ?thesis by (auto simp: c')
    qed
  next
    show "map idx (steps (shared c')) = [1 .. int (length (steps (shared c')))]"
      using ledger_inv_idx [OF inv] by (simp add: sh ix cnt upto_Suc_length)
  next
    show "step_counter (shared c') =
       int (length (steps (shared c'))) + (if \<exists>t. counted (pcs c' t) then 1 else 0)"
      using nc by (simp add: sh cnt)
  qed
qed

lemma ledger_inv_Release:
  assumes inv: "ledger_inv c" and st: "step G (Release t) c = Some c'"
  shows "ledger_inv c'"
proof -
  from st have at: "pcs c t = Appended"
    and c': "c' = \<lparr>shared = (shared c)\<lparr>lock := None\<rparr>, pcs = (pcs c)(t := Idle)\<rparr>"
    by (auto split: pc.splits)
  from ledger_inv_lock [OF inv, of t] at have held: "lock (shared c) = Some t" by simp
  have cnt: "counted (pcs c' u) = counted (pcs c u)" for u
    using at by (cases "u = t") (simp_all add: c')
  show ?thesis
  proof (rule ledger_invI)
    fix u show "holds_lock (pcs c' u) \<longleftrightarrow> lock (shared c') = Some u"
      using ledger_inv_lock [OF inv, of u] held
      by (cases "u = t") (auto simp: c')
  next
    show "map idx (steps (shared c')) = [1 .. int (length (steps (shared c')))]"
      using ledger_inv_idx [OF inv] by (simp add: c')
  next
    show "step_counter (shared c') =
       int (length (steps (shared c'))) + (if \<exists>t. counted (pcs c' t) then 1 else 0)"
      using ledger_inv_counter [OF inv] by (simp only: cnt) (simp add: c')
  qed
qed

lemma ledger_inv_step: "ledger_inv c \<Longrightarrow> step G l c = Some c' \<Longrightarrow> ledger_inv c'"
proof (cases l)
  case (Deliver ev ob)
  assume "ledger_inv c" "step G l c = Some c'"
  with Deliver show ?thesis by (simp only: ledger_inv_Deliver)
next
  case (Acquire t)
  assume "ledger_inv c" "step G l c = Some c'"
  with Acquire show ?thesis by (simp only: ledger_inv_Acquire)
next
  case (Increment t)
  assume "ledger_inv c" "step G l c = Some c'"
  with Increment show ?thesis by (simp only: ledger_inv_Increment)
next
  case (Build t ob)
  assume "ledger_inv c" "step G l c = Some c'"
  with Build show ?thesis by (simp only: ledger_inv_Build)
next
  case (Release t)
  assume "ledger_inv c" "step G l c = Some c'"
  with Release show ?thesis by (simp only: ledger_inv_Release)
qed

lemma ledger_inv_run: "run G ls init = Some c \<Longrightarrow> ledger_inv c"
  by (rule run_invariant [where P = ledger_inv and G = G, OF ledger_inv_step ledger_inv_init])

subsection \<open>Evaluating the sample schedules\<close>

lemmas callback_defs =
  on_click_def on_scroll_def on_press_def on_press_except_def print_line_def
  capture_with_optional_crop_def
  capture_def crop_region_def screenshot_path_def replace_def path_name_def str_int_def
  digit_char_def

lemmas record_defs =
  record_incr_def record_body_def print_line_def console_line_def mark_image_def
  active_window_info_def via_pygetwindow_def
  via_win32_def process_of_window_def except_pass_def annotate_click_on_image_def
  ANNOTATE_CLICK_def strip_def isspace_def str_opt_int_def path_name_def str_int_def
  digit_char_def

lemmas sample_defs =
  init_def windows_pc_def linux_pc_def desktop_def no_display_def no_window_def bad_image_def
  no_process_def no_pygetwindow_def bad_console_def

lemma ledger_run: "run G ls init = Some c \<Longrightarrow> ledger G ls = steps (shared c)"
  by (simp add: ledger_def)

lemma ledger_overtaken:
  "run windows_pc overtaken init \<noteq> None \<and>
   ledger windows_pc overtaken =
     [\<lparr>idx = 1, ts = ''2023-11-14 22:13:20'', action = ''manual screenshot'',
       pos_x = None, pos_y = None, window_title = ''Notepad'', app_name = ''notepad.exe'',
       img_rel = ''images/step_1001.png'', img_mark_rel = ''images/step_1001.png''\<rparr>,
      \<lparr>idx = 2, ts = ''2023-11-14 22:13:20'', action = ''click left'',
       pos_x = Some 100, pos_y = Some 200, window_title = ''Notepad'', app_name = ''notepad.exe'',
       img_rel = ''images/step_1000.png'', img_mark_rel = ''images_marked/step_1000.png''\<rparr>]"
  by (simp add: ledger_def overtaken_def sample_defs callback_defs record_defs Let_def)

subsection \<open>What a move does to the ledger\<close>

lemma step_ledger:
  assumes "step G l c = Some c'"
  shows "steps (shared c') = steps (shared c) \<or>
    (\<exists>t ob act px py img sp.
       l = Build t ob \<and> pcs c t = Counted act px py img \<and>
       steps (shared c') = steps (shared c) @ [sp] \<and>
       action sp = act \<and>
       active_window_info G ob = Inr (window_title sp, app_name sp))"
proof (cases l)
  case (Deliver ev ob)
  from assms have "step G (Deliver ev ob) c = Some c'" unfolding Deliver .
  then obtain out s where "callback G ob ev (shared c) = (out, s)"
    and "c' = \<lparr>shared = s, pcs = (pcs c)(listener ev := after_callback out)\<rparr>"
    by (rule step_Deliver)
  with callback_frame [of G ob ev "shared c" out s] show ?thesis by simp
next
  case (Acquire t)
  with assms show ?thesis by (auto split: pc.splits if_splits)
next
  case (Increment t)
  with assms show ?thesis by (auto simp: record_incr_def split: pc.splits)
next
  case (Build t ob)
  from assms have "step G (Build t ob) c = Some c'" unfolding Build .
  then obtain act px py img sh p where at: "pcs c t = Counted act px py img"
    and c': "c' = \<lparr>shared = sh, pcs = (pcs c)(t := p)\<rparr>"
    and s1: "steps sh = steps (fst (record_body G ob act px py img (shared c)))"
    by (rule step_Build)
  obtain sp fs cs r where rb: "record_body G ob act px py img (shared c) =
       ((shared c)\<lparr>steps := steps (shared c) @ [sp], files := fs, console := cs\<rparr>, r)"
    and "action sp = act"
    and "active_window_info G ob = Inr (window_title sp, app_name sp)"
    by (rule record_body_appends [of G ob act px py img "shared c"])
  moreover have "steps (shared c') = steps (shared c) @ [sp]" by (simp add: c' s1 rb)
  ultimately show ?thesis using Build at by blast
next
  case (Release t)
  with assms show ?thesis by (auto split: pc.splits)
qed

subsection \<open>The forms of the actions\<close>

lemma actions_inv_init: "actions_inv init"
  by (simp add: actions_inv_def init_def)

lemma actions_inv_step:
  assumes inv: "actions_inv c" and st: "step G l c = Some c'"
  shows "actions_inv c'"
proof -
  from inv have old: "\<And>s. s \<in> set (steps (shared c)) \<Longrightarrow> is_action (action s)"
    and pend: "\<And>t a. pending_action (pcs c t) = Some a \<Longrightarrow> is_action a"
    unfolding actions_inv_def by blast+
  have steps': "is_action (action s)" if "s \<in> set (steps (shared c'))" for s
  proof -
    from step_ledger [OF st] show ?thesis
    proof
      assume "steps (shared c') = steps (shared c)"
      with that old show ?thesis by simp
    next
      assume "\<exists>t ob act px py img sp.
       l = Build t ob \<and> pcs c t = Counted act px py img \<and>
       steps (shared c') = steps (shared c) @ [sp] \<and>
       action sp = act \<and>
       active_window_info G ob = Inr (window_title sp, app_name sp)"
      then obtain t act px py img sp where at: "pcs c t = Counted act px py img"
        and ap: "steps (shared c') = steps (shared c) @ [sp]" and ac: "action sp = act"
        by blast
      from at have "pending_action (pcs c t) = Some act" by simp
      then have "is_action act" by (rule pend)
      with that ap ac old show ?thesis by auto
    qed
  qed
  have pend': "is_action a" if p: "pending_action (pcs c' t) = Some a" for t a
  proof (cases l)
    case (Deliver ev ob)
    from st have "step G (Deliver ev ob) c = Some c'" unfolding Deliver .
    then obtain out s where cb: "callback G ob ev (shared c) = (out, s)"
      and c': "c' = \<lparr>shared = s, pcs = (pcs c)(listener ev := after_callback out)\<rparr>"
      by (rule step_Deliver)
    show ?thesis
    proof (cases "t = listener ev")
      case True
      with p c' have "pending_action (after_callback out) = Some a" by simp
      then obtain px py img where "out = Calls_record a px py img"
        using pending_after_callback by blast
      with cb show ?thesis by (simp add: callback_action)
    next
      case False
      with p c' have "pending_action (pcs c t) = Some a" by simp
      then show ?thesis by (rule pend)
    qed
  next
    case (Acquire u)
    from st have "step G (Acquire u) c = Some c'" unfolding Acquire .
    then obtain act px py img where at: "pcs c u = At_lock act px py img"
      and c': "c' = \<lparr>shared = (shared c)\<lparr>lock := Some u\<rparr>,
                    pcs = (pcs c)(u := Locked act px py img)\<rparr>"
      by (rule step_Acquire)
    from p c' at have "pending_action (pcs c t) = Some a" by (cases "t = u") simp_all
    then show ?thesis by (rule pend)
  next
    case (Increment u)
    from st have "step G (Increment u) c = Some c'" unfolding Increment .
    then obtain act px py img where at: "pcs c u = Locked act px py img"
      and c': "c' = \<lparr>shared = record_incr (shared c),
                    pcs = (pcs c)(u := Counted act px py img)\<rparr>"
      by (rule step_Increment)
    from p c' at have "pending_action (pcs c t) = Some a" by (cases "t = u") simp_all
    then show ?thesis by (rule pend)
  next
    case (Build u ob)
    from st have "step G (Build u ob) c = Some c'" unfolding Build .
    then obtain sh q where c': "c' = \<lparr>shared = sh, pcs = (pcs c)(u := q)\<rparr>"
      and q: "pending_action q = None"
      by (rule step_Build)
    from p c' q have "pending_action (pcs c t) = Some a" by (cases "t = u") simp_all
    then show ?thesis by (rule pend)
  next
    case (Release u)
    with st have c': "c' = \<lparr>shared = (shared c)\<lparr>lock := None\<rparr>, pcs = (pcs c)(u := Idle)\<rparr>"
      by (auto split: pc.splits)
    from p c' have "pending_action (pcs c t) = Some a" by (cases "t = u") simp_all
    then show ?thesis by (rule pend)
  qed
  from steps' pend' show ?thesis unfolding actions_inv_def by blast
qed

lemma actions_inv_run: "run G ls init = Some c \<Longrightarrow> actions_inv c"
  by (rule run_invariant [where P = actions_inv and G = G, OF actions_inv_step actions_inv_init])

lemma ledger_scenarios:
  "run windows_pc scenarios init \<noteq> None \<and>
   ledger windows_pc scenarios =
     [\<lparr>idx = 1, ts = ''2023-11-14 22:13:20'', action = ''click left'',
       pos_x = Some 100, pos_y = Some 200, window_title = ''Notepad'', app_name = ''notepad.exe'',
       img_rel = ''images/step_1000.png'', img_mark_rel = ''images_marked/step_1000.png''\<rparr>,
      \<lparr>idx = 2, ts = ''2023-11-14 22:13:20'', action = ''scroll dx=0 dy=-3'',
       pos_x = Some 50, pos_y = Some 50, window_title = ''Notepad'', app_name = ''notepad.exe'',
       img_rel = ''images/step_1001.png'', img_mark_rel = ''images/step_1001.png''\<rparr>,
      \<lparr>idx = 3, ts = ''2023-11-14 22:13:20'', action = ''manual screenshot'',
       pos_x = None, pos_y = None, window_title = ''Notepad'', app_name = ''notepad.exe'',
       img_rel = ''images/step_1002.png'', img_mark_rel = ''images/step_1002.png''\<rparr>]"
  by (simp add: ledger_def scenarios_def handled_def sample_defs callback_defs record_defs Let_def)

subsection \<open>record as one call\<close>

lemma record_call_appends:
  obtains st where
    "steps (fst (record_call G ob act px py img s)) = steps s @ [st]"
    and "snd (record_call G ob act px py img s)
           = print_fault ob (console_line (now_human ob) act px py (path_name img)
                               (window_title st) (app_name st))"
    and "idx st = step_counter s + 1" and "action st = act"
    and "img_rel st = ''images/'' @ path_name img"
    and "active_window_info G ob = Inr (window_title st, app_name st)"
    and "img_mark_rel st =
           (if fst (mark_image G ob act px py img (files s)) \<noteq> []
            then fst (mark_image G ob act px py img (files s))
            else ''images/'' @ path_name img)"
proof -
  obtain st fs cs r where rb: "record_body G ob act px py img (record_incr s) =
       ((record_incr s)\<lparr>steps := steps (record_incr s) @ [st], files := fs, console := cs\<rparr>, r)"
    and 1: "idx st = step_counter (record_incr s)" and 2: "action st = act"
    and 3: "img_rel st = ''images/'' @ path_name img"
    and 4: "active_window_info G ob = Inr (window_title st, app_name st)"
    and 5: "img_mark_rel st =
           (if fst (mark_image G ob act px py img (files (record_incr s))) \<noteq> []
            then fst (mark_image G ob act px py img (files (record_incr s)))
            else ''images/'' @ path_name img)"
    and 6: "r = print_fault ob (console_line (now_human ob) act px py (path_name img)
                               (window_title st) (app_name st))"
    by (rule record_body_appends [of G ob act px py img "record_incr s"])
  show thesis
  proof (rule that [of st])
    show "steps (fst (record_call G ob act px py img s)) = steps s @ [st]"
      by (simp add: record_call_def rb) (simp add: record_incr_def)
    show "snd (record_call G ob act px py img s)
           = print_fault ob (console_line (now_human ob) act px py (path_name img)
                               (window_title st) (app_name st))"
      using 6 by (simp add: record_call_def rb)
    show "idx st = step_counter s + 1" using 1 by (simp add: record_incr_def)
    show "action st = act" by (rule 2)
    show "img_rel st = ''images/'' @ path_name img" by (rule 3)
    show "active_window_info G ob = Inr (window_title st, app_name st)" by (rule 4)
    show "img_mark_rel st =
           (if fst (mark_image G ob act px py img (files s)) \<noteq> []
            then fst (mark_image G ob act px py img (files s))
            else ''images/'' @ path_name img)"
      using 5 by (simp add: record_incr_def)
  qed
qed

lemma capture_path:
  "capture ob r fs = Inr (p, fs') \<Longrightarrow> path_name p = ''step_'' @ str_int (time_ms ob) @ ''.png''"
  by (auto simp: capture_def screenshot_path_def path_name_def Let_def split: sum.splits)

lemma ledger_same_millisecond:
  "run windows_pc same_millisecond init \<noteq> None \<and>
   ledger windows_pc same_millisecond =
     [\<lparr>idx = 1, ts = ''2023-11-14 22:13:20'', action = ''click left'',
       pos_x = Some 100, pos_y = Some 200, window_title = ''Notepad'', app_name = ''notepad.exe'',
       img_rel = ''images/step_1700000000000.png'',
       img_mark_rel = ''images_marked/step_1700000000000.png''\<rparr>,
      \<lparr>idx = 2, ts = ''2023-11-14 22:13:20'', action = ''scroll dx=0 dy=-3'',
       pos_x = Some 50, pos_y = Some 50, window_title = ''Notepad'', app_name = ''notepad.exe'',
       img_rel = ''images/step_1700000000000.png'',
       img_mark_rel = ''images/step_1700000000000.png''\<rparr>]"
  by (simp add: ledger_def same_millisecond_def handled_def sample_defs callback_defs
      record_defs Let_def)

subsection \<open>Off Windows\<close>

lemma app_name_step:
  assumes nw: "\<not> is_windows G"
    and inv: "\<forall>s \<in> set (steps (shared c)). app_name s = []"
    and st: "step G l c = Some c'"
  shows "\<forall>s \<in> set (steps (shared c')). app_name s = []"
proof -
  from step_ledger [OF st] show ?thesis
  proof
    assume "steps (shared c') = steps (shared c)"
    with inv show ?thesis by simp
  next
    assume "\<exists>t ob act px py img sp.
       l = Build t ob \<and> pcs c t = Counted act px py img \<and>
       steps (shared c') = steps (shared c) @ [sp] \<and>
       action sp = act \<and>
       active_window_info G ob = Inr (window_title sp, app_name sp)"
    then obtain ob sp where ap: "steps (shared c') = steps (shared c) @ [sp]"
      and w: "active_window_info G ob = Inr (window_title sp, app_name sp)"
      by blast
    from active_window_info_not_windows [OF nw w] have "app_name sp = []" by simp
    with ap inv show ?thesis by simp
  qed
qed

lemma ledger_scenarios_linux:
  "run linux_pc scenarios init \<noteq> None \<and>
   map window_title (ledger linux_pc scenarios) = [''Notepad'', ''Notepad'', ''Notepad''] \<and>
   map app_name (ledger linux_pc scenarios) = [[], [], []]"
  by (simp add: ledger_def scenarios_def handled_def sample_defs callback_defs record_defs Let_def)

lemma ledger_no_window:
  "run windows_pc (handled (Click 100 200 (Button ''left'') True) (no_window 1000)) init \<noteq> None \<and>
   ledger windows_pc (handled (Click 100 200 (Button ''left'') True) (no_window 1000)) =
     [\<lparr>idx = 1, ts = ''2023-11-14 22:13:20'', action = ''click left'',
       pos_x = Some 100, pos_y = Some 200, window_title = [], app_name = [],
       img_rel = ''images/step_1000.png'', img_mark_rel = ''images_marked/step_1000.png''\<rparr>]"
  by (simp add: ledger_def handled_def sample_defs callback_defs record_defs Let_def)

subsection \<open>Annotation\<close>

lemma mark_image_fst:
  "fst (mark_image G ob act px py img fs) =
     (if prefix ''click'' act \<and>
         \<not> isl (annotate_click_on_image G ob img (IMAGES_MARKED_DIR, path_name img)
                  (Some (px, py)) fs)
      then ''images_marked/'' @ path_name img else [])"
  by (simp add: mark_image_def ANNOTATE_CLICK_def path_name_def Let_def split: sum.splits)

lemma ledger_bad_image:
  "run windows_pc (handled (Click 100 200 (Button ''left'') True) (bad_image 1000)) init \<noteq> None \<and>
   ledger windows_pc (handled (Click 100 200 (Button ''left'') True) (bad_image 1000)) =
     [\<lparr>idx = 1, ts = ''2023-11-14 22:13:20'', action = ''click left'',
       pos_x = Some 100, pos_y = Some 200, window_title = ''Notepad'', app_name = ''notepad.exe'',
       img_rel = ''images/step_1000.png'', img_mark_rel = ''images/step_1000.png''\<rparr>]"
  by (simp add: ledger_def handled_def sample_defs callback_defs record_defs Let_def)

subsection \<open>The two rings\<close>

lemma convert_roundtrip: "convert_RGB (convert_RGBA im) = im"
  by (cases im) (auto simp: convert_RGB_def convert_RGBA_def fun_eq_iff split: prod.splits)

lemma convert_RGB_pixel:
  "im_pixel im' px py = im_pixel (convert_RGBA im) px py \<Longrightarrow>
     im_pixel (convert_RGB im') px py = im_pixel im px py"
  by (simp add: convert_RGB_def convert_RGBA_def split: prod.splits)

lemma in_box_inner_outer:
  "in_box (xv - r, yv - r, xv + r, yv + r) px py \<Longrightarrow>
     in_box (xv - (r + 2), yv - (r + 2), xv + (r + 2), yv + (r + 2)) px py"
  by (simp add: in_box_def)

lemma draws_inside_box_paint_ring: "draws_inside_box paint_ring"
  by (simp add: draws_inside_box_def paint_ring_def on_ring_def)

subsection \<open>What a callback writes\<close>

lemma capture_writes:
  "capture ob r fs = Inr (p, fs') \<Longrightarrow> fs' (IMAGES_MARKED_DIR, n) = fs (IMAGES_MARKED_DIR, n)"
  by (auto simp: capture_def screenshot_path_def Let_def split: sum.splits)

lemma callback_writes:
  assumes "callback G ob ev s = (out, s')"
  shows "files s' (IMAGES_MARKED_DIR, n) = files s (IMAGES_MARKED_DIR, n)"
    and "console s' = console s \<or>
         (\<exists>e. console s' = console s @ [''on_press error: '' @ str_exn e])"
proof -
  show "files s' (IMAGES_MARKED_DIR, n) = files s (IMAGES_MARKED_DIR, n)"
    using assms
    by (cases ev)
      (auto simp: on_click_def on_scroll_def on_press_def on_press_except_def print_line_def
        capture_with_optional_crop_def Let_def dest: capture_writes
        split: if_splits sum.splits prod.splits option.splits)
  show "console s' = console s \<or>
         (\<exists>e. console s' = console s @ [''on_press error: '' @ str_exn e])"
    using assms
    by (cases ev)
      (auto simp: on_click_def on_scroll_def on_press_def on_press_except_def print_line_def
        Let_def split: if_splits sum.splits prod.splits option.splits)
qed

lemma ledger_bad_console:
  "run windows_pc
     [Deliver (Click 100 200 (Button ''left'') True) (desktop 1000), Acquire Mouse,
      Increment Mouse, Build Mouse (bad_console 1000)] init \<noteq> None \<and>
   map idx (ledger windows_pc
     [Deliver (Click 100 200 (Button ''left'') True) (desktop 1000), Acquire Mouse,
      Increment Mouse, Build Mouse (bad_console 1000)]) = [1] \<and>
   map img_mark_rel (ledger windows_pc
     [Deliver (Click 100 200 (Button ''left'') True) (desktop 1000), Acquire Mouse,
      Increment Mouse, Build Mouse (bad_console 1000)]) = [''images_marked/step_1000.png''] \<and>
   pcs (after_schedule windows_pc
     [Deliver (Click 100 200 (Button ''left'') True) (desktop 1000), Acquire Mouse,
      Increment Mouse, Build Mouse (bad_console 1000)]) Mouse
     = Died (Exception ''UnicodeEncodeError'') \<and>
   lock (shared (after_schedule windows_pc
     [Deliver (Click 100 200 (Button ''left'') True) (desktop 1000), Acquire Mouse,
      Increment Mouse, Build Mouse (bad_console 1000)])) = None"
  by (simp add: ledger_def after_schedule_def sample_defs callback_defs record_defs Let_def)

section \<open>The claims\<close>

text \<open>
  C1. In every session, after any interleaving of the moves of the two listener threads,
  the indices of the ledger are exactly \<open>1, \<dots>, N\<close> for its \<open>N\<close> steps: each step's index
  is its position counted from 1, and the indices increase strictly, with no gap and no
  duplicate.
\<close>

theorem ledger_indices_contiguous:
  "run G ls init = Some c \<Longrightarrow>
     map idx (steps (shared c)) = [1 .. int (length (steps (shared c)))] \<and>
     (\<forall>i < length (steps (shared c)). idx (steps (shared c) ! i) = int i + 1) \<and>
     sorted_wrt (<) (map idx (steps (shared c))) \<and>
     distinct (map idx (steps (shared c)))"
proof -
  assume r: "run G ls init = Some c"
  have m: "map idx (steps (shared c)) = [1 .. int (length (steps (shared c)))]"
    using ledger_inv_run [OF r] by (rule ledger_inv_idx)
  have "idx (steps (shared c) ! i) = int i + 1" if "i < length (steps (shared c))" for i
  proof -
    from that have "idx (steps (shared c) ! i) = map idx (steps (shared c)) ! i" by simp
    also have "\<dots> = [1 .. int (length (steps (shared c)))] ! i" by (simp only: m)
    also have "\<dots> = 1 + int i" using that by simp
    finally show ?thesis by simp
  qed
  moreover have "sorted_wrt (<) (map idx (steps (shared c)))" by (simp only: m sorted_wrt_upto)
  moreover have "distinct (map idx (steps (shared c)))" by (simp only: m distinct_upto)
  ultimately show ?thesis using m by blast
qed

theorem ledger_indices_contiguous_witness:
  "run windows_pc overtaken init \<noteq> None \<and>
   length (ledger windows_pc overtaken) = 2 \<and>
   map idx (ledger windows_pc overtaken) = [1, 2]"
proof -
  obtain c where r: "run windows_pc overtaken init = Some c"
    using ledger_overtaken by blast
  from ledger_indices_contiguous [OF r]
  have "map idx (steps (shared c)) = [1 .. int (length (steps (shared c)))]" by blast
  with ledger_run [OF r] have "map idx (ledger windows_pc overtaken)
    = [1 .. int (length (ledger windows_pc overtaken))]" by simp
  moreover have "length (ledger windows_pc overtaken) = 2" using ledger_overtaken by simp
  ultimately show ?thesis using r by (simp add: upto_rec1)
qed

text \<open>
  C2 (as amended). Index assignment, window inspection, annotation, the append to the
  ledger and the console print of a step are performed by \<open>record\<close> while its thread holds
  the lock. At most one thread is inside that section, and the lock is held by exactly
  that thread. Only a move of the lock holder changes the counter, the ledger or a marked
  image, or prints anything but the error line of \<open>on_press\<close>. The move that appends a step
  is the one that inspects the window, stamps the time, annotates and prints: the step's
  title and application are the inspector's answer in that move, the marked image is
  written in that move, and its line is printed in that move unless \<open>print\<close> raises. The
  screen capture is not part of the section: a callback captures before it calls
  \<open>record\<close>, so an idle listener takes its capture whoever holds the lock.
\<close>

theorem record_section_exclusive:
  "run G ls init = Some c \<Longrightarrow>
     (\<forall>t u. holds_lock (pcs c t) \<and> holds_lock (pcs c u) \<longrightarrow> t = u) \<and>
     (\<forall>t. holds_lock (pcs c t) \<longleftrightarrow> lock (shared c) = Some t) \<and>
     (\<forall>l c'. step G l c = Some c' \<and>
        (steps (shared c') \<noteq> steps (shared c) \<or>
         step_counter (shared c') \<noteq> step_counter (shared c) \<or>
         (\<exists>n. files (shared c') (IMAGES_MARKED_DIR, n) \<noteq> files (shared c) (IMAGES_MARKED_DIR, n)) \<or>
         (console (shared c') \<noteq> console (shared c) \<and>
          (\<forall>e. console (shared c') \<noteq> console (shared c) @ [''on_press error: '' @ str_exn e])))
        \<longrightarrow> (\<exists>t. lock (shared c) = Some t \<and> (l = Increment t \<or> (\<exists>ob. l = Build t ob)))) \<and>
     (\<forall>t c'. step G (Increment t) c = Some c' \<longrightarrow>
        lock (shared c) = Some t \<and> step_counter (shared c') = step_counter (shared c) + 1) \<and>
     (\<forall>t ob c' act px py img. pcs c t = Counted act px py img \<and> step G (Build t ob) c = Some c'
        \<longrightarrow> lock (shared c) = Some t \<and>
            (\<exists>st. steps (shared c') = steps (shared c) @ [st] \<and>
               idx st = step_counter (shared c) \<and> ts st = now_human ob \<and>
               active_window_info G ob = Inr (window_title st, app_name st) \<and>
               files (shared c') = snd (mark_image G ob act px py img (files (shared c))) \<and>
               img_mark_rel st =
                 (if fst (mark_image G ob act px py img (files (shared c))) \<noteq> []
                  then fst (mark_image G ob act px py img (files (shared c)))
                  else ''images/'' @ path_name img) \<and>
               (print_fault ob (console_line (now_human ob) act px py (path_name img)
                                  (window_title st) (app_name st)) = None
                \<longrightarrow> console (shared c') =
                      console (shared c) @ [console_line (now_human ob) act px py (path_name img)
                                              (window_title st) (app_name st)]))) \<and>
     (\<forall>ev ob. pcs c (listener ev) = Idle \<longrightarrow>
        (\<exists>c'. step G (Deliver ev ob) c = Some c' \<and> lock (shared c') = lock (shared c)))"
  (is "_ \<Longrightarrow> ?A \<and> ?B \<and> ?C \<and> ?D \<and> ?E \<and> ?F")
proof -
  assume r: "run G ls init = Some c"
  have inv: "ledger_inv c" using r by (rule ledger_inv_run)
  have lk: "holds_lock (pcs c t) \<longleftrightarrow> lock (shared c) = Some t" for t
    using inv by (rule ledger_inv_lock)
  have excl: "t = u" if "holds_lock (pcs c t)" "holds_lock (pcs c u)" for t u
    using that lk [of t] lk [of u] by simp
  have holder: "\<exists>t. lock (shared c) = Some t \<and> (l = Increment t \<or> (\<exists>ob. l = Build t ob))"
    if st: "step G l c = Some c'"
      and ch: "steps (shared c') \<noteq> steps (shared c) \<or>
         step_counter (shared c') \<noteq> step_counter (shared c) \<or>
         (\<exists>n. files (shared c') (IMAGES_MARKED_DIR, n) \<noteq> files (shared c) (IMAGES_MARKED_DIR, n)) \<or>
         (console (shared c') \<noteq> console (shared c) \<and>
          (\<forall>e. console (shared c') \<noteq> console (shared c) @ [''on_press error: '' @ str_exn e]))"
    for l c'
  proof (cases l)
    case (Deliver ev ob)
    from st have "step G (Deliver ev ob) c = Some c'" unfolding Deliver .
    then obtain out s where cb: "callback G ob ev (shared c) = (out, s)"
      and c': "c' = \<lparr>shared = s, pcs = (pcs c)(listener ev := after_callback out)\<rparr>"
      by (rule step_Deliver)
    from callback_frame [OF cb] have e1: "steps (shared c') = steps (shared c)"
      and e2: "step_counter (shared c') = step_counter (shared c)" by (simp_all add: c')
    have e3: "files (shared c') (IMAGES_MARKED_DIR, n) = files (shared c) (IMAGES_MARKED_DIR, n)"
      for n using callback_writes(1) [OF cb, of n] by (simp add: c')
    have e4: "console (shared c') = console (shared c) \<or>
         (\<exists>e. console (shared c') = console (shared c) @ [''on_press error: '' @ str_exn e])"
      using callback_writes(2) [OF cb] by (simp add: c')
    from ch e1 e2 e3 e4 have False by blast
    then show ?thesis ..
  next
    case (Acquire t)
    from st have "step G (Acquire t) c = Some c'" unfolding Acquire .
    then obtain act px py img where
      "c' = \<lparr>shared = (shared c)\<lparr>lock := Some t\<rparr>, pcs = (pcs c)(t := Locked act px py img)\<rparr>"
      by (rule step_Acquire)
    with ch show ?thesis by simp
  next
    case (Increment t)
    from st have "step G (Increment t) c = Some c'" unfolding Increment .
    then obtain act px py img where "pcs c t = Locked act px py img"
      by (rule step_Increment)
    with lk [of t] Increment show ?thesis by simp
  next
    case (Build t ob)
    from st have "step G (Build t ob) c = Some c'" unfolding Build .
    then obtain act px py img where "pcs c t = Counted act px py img"
      by (rule step_Build)
    with lk [of t] Build show ?thesis by simp
  next
    case (Release t)
    with st ch show ?thesis by (auto split: pc.splits)
  qed
  have incr: "lock (shared c) = Some t \<and> step_counter (shared c') = step_counter (shared c) + 1"
    if st: "step G (Increment t) c = Some c'" for t c'
  proof -
    from st obtain act px py img where at: "pcs c t = Locked act px py img"
      and c': "c' = \<lparr>shared = record_incr (shared c), pcs = (pcs c)(t := Counted act px py img)\<rparr>"
      by (rule step_Increment)
    from lk [of t] at c' show ?thesis by (simp add: record_incr_def)
  qed
  have build: "lock (shared c) = Some t \<and>
            (\<exists>st. steps (shared c') = steps (shared c) @ [st] \<and>
               idx st = step_counter (shared c) \<and> ts st = now_human ob \<and>
               active_window_info G ob = Inr (window_title st, app_name st) \<and>
               files (shared c') = snd (mark_image G ob act px py img (files (shared c))) \<and>
               img_mark_rel st =
                 (if fst (mark_image G ob act px py img (files (shared c))) \<noteq> []
                  then fst (mark_image G ob act px py img (files (shared c)))
                  else ''images/'' @ path_name img) \<and>
               (print_fault ob (console_line (now_human ob) act px py (path_name img)
                                  (window_title st) (app_name st)) = None
                \<longrightarrow> console (shared c') =
                      console (shared c) @ [console_line (now_human ob) act px py (path_name img)
                                              (window_title st) (app_name st)]))"
    if at: "pcs c t = Counted act px py img" and st: "step G (Build t ob) c = Some c'"
    for t ob c' act px py img
  proof -
    obtain sp fs cs rr where rb: "record_body G ob act px py img (shared c) =
       ((shared c)\<lparr>steps := steps (shared c) @ [sp], files := fs, console := cs\<rparr>, rr)"
      and 1: "idx sp = step_counter (shared c)" and 2: "ts sp = now_human ob"
      and 3: "active_window_info G ob = Inr (window_title sp, app_name sp)"
      and 4: "img_mark_rel sp =
           (if fst (mark_image G ob act px py img (files (shared c))) \<noteq> []
            then fst (mark_image G ob act px py img (files (shared c)))
            else ''images/'' @ path_name img)"
      and 5: "fs = snd (mark_image G ob act px py img (files (shared c)))"
      and 6: "rr = print_fault ob (console_line (now_human ob) act px py (path_name img)
                               (window_title sp) (app_name sp))"
      and 7: "cs = (if rr = None
               then console (shared c) @ [console_line (now_human ob) act px py (path_name img)
                                   (window_title sp) (app_name sp)]
               else console (shared c))"
      by (rule record_body_appends [of G ob act px py img "shared c"])
    from st obtain act' px' py' img' sh p where at': "pcs c t = Counted act' px' py' img'"
      and c': "c' = \<lparr>shared = sh, pcs = (pcs c)(t := p)\<rparr>"
      and s1: "steps sh = steps (fst (record_body G ob act' px' py' img' (shared c)))"
      and s2: "files sh = files (fst (record_body G ob act' px' py' img' (shared c)))"
      and s4: "console sh = console (fst (record_body G ob act' px' py' img' (shared c))) \<or>
         (\<exists>e. console sh = console (fst (record_body G ob act' px' py' img' (shared c)))
                  @ [''on_press error: '' @ str_exn e])"
      by (rule step_Build)
    from at at' have same: "act' = act" "px' = px" "py' = py" "img' = img" by simp_all
    have a: "steps (shared c') = steps (shared c) @ [sp]" by (simp add: c' s1 same rb)
    have b: "files (shared c') = snd (mark_image G ob act px py img (files (shared c)))"
      by (simp add: c' s2 same rb 5)
    have d: "console (shared c') =
                      console (shared c) @ [console_line (now_human ob) act px py (path_name img)
                                              (window_title sp) (app_name sp)]"
      if ok: "print_fault ob (console_line (now_human ob) act px py (path_name img)
                                  (window_title sp) (app_name sp)) = None"
    proof -
      from ok 6 have none: "rr = None" by simp
      with st at rb have "c' = \<lparr>shared =
          (shared c)\<lparr>steps := steps (shared c) @ [sp], files := fs, console := cs\<rparr>,
          pcs = (pcs c)(t := Appended)\<rparr>" by simp
      with 7 none show ?thesis by simp
    qed
    from lk [of t] at have held: "lock (shared c) = Some t" by simp
    show ?thesis
      apply (intro conjI exI [of _ sp] impI)
             apply (rule held)
            apply (rule a)
           apply (rule 1)
          apply (rule 2)
         apply (rule 3)
        apply (rule b)
       apply (rule 4)
      apply (erule d)
      done
  qed
  have free: "\<exists>c'. step G (Deliver ev ob) c = Some c' \<and> lock (shared c') = lock (shared c)"
    if idle: "pcs c (listener ev) = Idle" for ev ob
  proof -
    obtain out s where cb: "callback G ob ev (shared c) = (out, s)"
      by (cases "callback G ob ev (shared c)")
    from callback_frame [OF cb] have "lock s = lock (shared c)" by simp
    with idle cb show ?thesis by simp
  qed
  have A: ?A using excl by blast
  have B: ?B using lk by blast
  have C: ?C by (intro allI impI, elim conjE, rule holder, assumption, assumption)
  have D: ?D by (intro allI impI, rule incr, assumption)
  have E: ?E by (intro allI impI, elim conjE, rule build, assumption, assumption)
  have F: ?F by (intro allI impI, rule free, assumption)
  show ?thesis using A B C D E F by (intro conjI)
qed

theorem record_section_exclusive_witness:
  "run windows_pc [Deliver (Press f9) (desktop 1000), Acquire Keyboard] init \<noteq> None \<and>
   lock (shared (after_schedule windows_pc
     [Deliver (Press f9) (desktop 1000), Acquire Keyboard])) = Some Keyboard \<and>
   run windows_pc
     ([Deliver (Press f9) (desktop 1000), Acquire Keyboard] @
      [Deliver (Click 100 200 (Button ''left'') True) (desktop 1001)]) init \<noteq> None"
proof -
  let ?p = "[Deliver (Press f9) (desktop 1000), Acquire Keyboard]"
  let ?d = "Deliver (Click 100 200 (Button ''left'') True) (desktop 1001)"
  obtain c where r: "run windows_pc ?p init = Some c"
    and idle: "pcs c (listener (Click 100 200 (Button ''left'') True)) = Idle"
    and held: "lock (shared c) = Some Keyboard"
    by (simp add: sample_defs callback_defs Let_def)
  from record_section_exclusive [OF r] idle
  obtain c' where st: "step windows_pc ?d c = Some c'" by blast
  have 1: "run windows_pc ?p init \<noteq> None" unfolding r by simp
  have 2: "lock (shared (after_schedule windows_pc ?p)) = Some Keyboard"
    unfolding after_schedule_def r using held by simp
  have 3: "run windows_pc (?p @ [?d]) init \<noteq> None"
    unfolding run_append r using st by (simp del: step.simps)
  from 1 2 3 show ?thesis by blast
qed

theorem capture_outside_lock_counterexample:
  "run windows_pc [Deliver (Click 100 200 (Button ''left'') True) (desktop 1000)] init \<noteq> None \<and>
   lock (shared (after_schedule windows_pc
     [Deliver (Click 100 200 (Button ''left'') True) (desktop 1000)])) = None \<and>
   files (shared (after_schedule windows_pc
     [Deliver (Click 100 200 (Button ''left'') True) (desktop 1000)]))
     (IMAGES_DIR, ''step_1000.png'') = Some black \<and>
   run windows_pc overtaken init \<noteq> None \<and>
   map idx (ledger windows_pc overtaken) = [1, 2] \<and>
   map action (ledger windows_pc overtaken) = [''manual screenshot'', ''click left''] \<and>
   map img_rel (ledger windows_pc overtaken) = [''images/step_1001.png'', ''images/step_1000.png'']"
proof -
  have "run windows_pc [Deliver (Click 100 200 (Button ''left'') True) (desktop 1000)] init \<noteq> None \<and>
   lock (shared (after_schedule windows_pc
     [Deliver (Click 100 200 (Button ''left'') True) (desktop 1000)])) = None \<and>
   files (shared (after_schedule windows_pc
     [Deliver (Click 100 200 (Button ''left'') True) (desktop 1000)]))
     (IMAGES_DIR, ''step_1000.png'') = Some black"
    by (simp add: after_schedule_def sample_defs callback_defs Let_def)
  then show ?thesis using ledger_overtaken by simp
qed

text \<open>
  C3 (as amended). Every recorded step's action is one of the three strings the callbacks
  build: \<open>click <button>\<close>, where the button is \<open>str(button)\<close> without \<open>Button.\<close>;
  \<open>scroll dx=<dx> dy=<dy>\<close>; or \<open>manual screenshot\<close>. A left-button press gives
  \<open>click left\<close>, and a scroll with dx = 0 and dy = -3 gives \<open>scroll dx=0 dy=-3\<close>.
\<close>

theorem recorded_actions:
  "(run G ls init = Some c \<longrightarrow> (\<forall>s \<in> set (steps (shared c)). is_action (action s))) \<and>
   (callback G ob (Click px py b pressed) s0 = (Calls_record a qx qy img, s1)
      \<longrightarrow> a = click_action b) \<and>
   (callback G ob (Scroll px py dx dy) s0 = (Calls_record a qx qy img, s1)
      \<longrightarrow> a = scroll_action dx dy) \<and>
   (callback G ob (Press k) s0 = (Calls_record a qx qy img, s1) \<longrightarrow> a = manual_action) \<and>
   click_action (Button ''left'') = ''click left'' \<and>
   scroll_action 0 (- 3) = ''scroll dx=0 dy=-3'' \<and>
   manual_action = ''manual screenshot''"
proof -
  have 1: "\<forall>s \<in> set (steps (shared c)). is_action (action s)" if "run G ls init = Some c"
    using actions_inv_run [OF that] unfolding actions_inv_def by blast
  have 2: "a = click_action b"
    if "callback G ob (Click px py b pressed) s0 = (Calls_record a qx qy img, s1)"
    using that by (auto simp: on_click_def click_action_def Let_def split: if_splits sum.splits)
  have 3: "a = scroll_action dx dy"
    if "callback G ob (Scroll px py dx dy) s0 = (Calls_record a qx qy img, s1)"
    using that by (auto simp: on_scroll_def scroll_action_def split: sum.splits)
  have 4: "a = manual_action"
    if "callback G ob (Press k) s0 = (Calls_record a qx qy img, s1)"
    using that
    by (auto simp: on_press_def manual_action_def split: if_splits sum.splits prod.splits
        option.splits)
  have 5: "click_action (Button ''left'') = ''click left''"
    by (simp add: click_action_def replace_def)
  have 6: "scroll_action 0 (- 3) = ''scroll dx=0 dy=-3''"
    by (simp add: scroll_action_def str_int_def digit_char_def)
  have 7: "manual_action = ''manual screenshot''" by (simp add: manual_action_def)
  from 1 2 3 4 5 6 7 show ?thesis by blast
qed

theorem recorded_actions_witness:
  "run windows_pc scenarios init \<noteq> None \<and>
   map action (ledger windows_pc scenarios)
     = [''click left'', ''scroll dx=0 dy=-3'', ''manual screenshot''] \<and>
   list_all is_action (map action (ledger windows_pc scenarios)) \<and>
   callback windows_pc (desktop 1000) (Click 100 200 (Button ''left'') True) (shared init)
     = (Calls_record ''click left'' (Some 100) (Some 200) (IMAGES_DIR, ''step_1000.png''),
        (shared init)\<lparr>files := [(IMAGES_DIR, ''step_1000.png'') \<mapsto> black]\<rparr>)"
proof -
  obtain c where r: "run windows_pc scenarios init = Some c"
    using ledger_scenarios by blast
  have cb: "callback windows_pc (desktop 1000) (Click 100 200 (Button ''left'') True) (shared init)
     = (Calls_record ''click left'' (Some 100) (Some 200) (IMAGES_DIR, ''step_1000.png''),
        (shared init)\<lparr>files := [(IMAGES_DIR, ''step_1000.png'') \<mapsto> black]\<rparr>)"
    by (simp add: sample_defs callback_defs Let_def)
  from recorded_actions [of windows_pc scenarios c] r
  have "\<forall>s \<in> set (steps (shared c)). is_action (action s)" by blast
  with ledger_run [OF r] have "list_all is_action (map action (ledger windows_pc scenarios))"
    by (simp add: list_all_iff)
  with cb show ?thesis using ledger_scenarios by simp
qed

theorem action_strings_counterexample:
  "run windows_pc scenarios init \<noteq> None \<and>
   map action (ledger windows_pc scenarios)
     = [''click left'', ''scroll dx=0 dy=-3'', ''manual screenshot''] \<and>
   map action (ledger windows_pc scenarios)
     \<noteq> [''click:left'', ''scroll:0,-3'', ''manual-screenshot'']"
  using ledger_scenarios by simp

text \<open>
  C4. When the display cannot be read, no step is appended. But only \<open>on_press\<close> catches
  and prints the error: \<open>on_click\<close> and \<open>on_scroll\<close> have no \<open>try\<close>, so there the
  exception leaves the callback and nothing is printed. The code at the failing input:
\<close>

theorem capture_error_leaves_on_click:
  "on_click G (no_display ms) px py b True s = (Raised (Exception ''screen grab failed''), s) \<and>
   on_scroll G (no_display ms) px py dx dy s = (Raised (Exception ''screen grab failed''), s) \<and>
   on_press G (no_display ms) f9 s
     = (Returned, s\<lparr>console := console s @ [''on_press error: screen grab failed'']\<rparr>) \<and>
   step G (Deliver (Click 100 200 (Button ''left'') True) (no_display 1000)) init
     = Some (init\<lparr>pcs := (pcs init)(Mouse := Died (Exception ''screen grab failed''))\<rparr>) \<and>
   ledger G [Deliver (Click 100 200 (Button ''left'') True) (no_display 1000)] = []"
  by (simp add: ledger_def sample_defs callback_defs Let_def)

text \<open>
  C5 (as amended). The \<open>image_ref\<close> of a step is \<open>images/step_<ms>.png\<close>, where \<open><ms>\<close> is
  the clock's millisecond count read when its capture was taken. So the steps recorded
  for two captures have the same \<open>image_ref\<close> exactly when the two captures read the same
  millisecond; captures in different milliseconds give distinct \<open>image_ref\<close> values.
\<close>

theorem image_ref_by_millisecond:
  "capture ob1 r1 fs1 = Inr (p1, fs1') \<Longrightarrow> capture ob2 r2 fs2 = Inr (p2, fs2') \<Longrightarrow>
     img_rel (last (steps (fst (record_call G o1 a1 x1 y1 p1 s1))))
       = ''images/step_'' @ str_int (time_ms ob1) @ ''.png'' \<and>
     (img_rel (last (steps (fst (record_call G o1 a1 x1 y1 p1 s1))))
        = img_rel (last (steps (fst (record_call G o2 a2 x2 y2 p2 s2))))
      \<longleftrightarrow> time_ms ob1 = time_ms ob2)"
proof -
  assume c1: "capture ob1 r1 fs1 = Inr (p1, fs1')" and c2: "capture ob2 r2 fs2 = Inr (p2, fs2')"
  obtain st1 where "steps (fst (record_call G o1 a1 x1 y1 p1 s1)) = steps s1 @ [st1]"
    and "img_rel st1 = ''images/'' @ path_name p1"
    by (rule record_call_appends [of G o1 a1 x1 y1 p1 s1])
  then have 1: "img_rel (last (steps (fst (record_call G o1 a1 x1 y1 p1 s1))))
    = ''images/step_'' @ str_int (time_ms ob1) @ ''.png''"
    by (simp add: capture_path [OF c1])
  obtain st2 where "steps (fst (record_call G o2 a2 x2 y2 p2 s2)) = steps s2 @ [st2]"
    and "img_rel st2 = ''images/'' @ path_name p2"
    by (rule record_call_appends [of G o2 a2 x2 y2 p2 s2])
  then have 2: "img_rel (last (steps (fst (record_call G o2 a2 x2 y2 p2 s2))))
    = ''images/step_'' @ str_int (time_ms ob2) @ ''.png''"
    by (simp add: capture_path [OF c2])
  have "str_int (time_ms ob1) = str_int (time_ms ob2) \<longleftrightarrow> time_ms ob1 = time_ms ob2"
    by (auto dest: str_int_inj)
  with 1 2 show ?thesis by simp
qed

theorem image_ref_by_millisecond_witness:
  "capture (desktop 1000) None Map.empty
     = Inr ((IMAGES_DIR, ''step_1000.png''), [(IMAGES_DIR, ''step_1000.png'') \<mapsto> black]) \<and>
   capture (desktop 1001) None Map.empty
     = Inr ((IMAGES_DIR, ''step_1001.png''), [(IMAGES_DIR, ''step_1001.png'') \<mapsto> black]) \<and>
   img_rel (last (steps (fst (record_call windows_pc (desktop 1000) ''manual screenshot''
       None None (IMAGES_DIR, ''step_1000.png'') (shared init)))))
     \<noteq> img_rel (last (steps (fst (record_call windows_pc (desktop 1001) ''manual screenshot''
       None None (IMAGES_DIR, ''step_1001.png'') (shared init)))))"
proof -
  have 1: "capture (desktop 1000) None Map.empty
     = Inr ((IMAGES_DIR, ''step_1000.png''), [(IMAGES_DIR, ''step_1000.png'') \<mapsto> black])"
    by (simp add: sample_defs callback_defs Let_def)
  have 2: "capture (desktop 1001) None Map.empty
     = Inr ((IMAGES_DIR, ''step_1001.png''), [(IMAGES_DIR, ''step_1001.png'') \<mapsto> black])"
    by (simp add: sample_defs callback_defs Let_def)
  have "time_ms (desktop 1000) \<noteq> time_ms (desktop 1001)" by (simp add: desktop_def)
  with image_ref_by_millisecond [OF 1 2] 1 2 show ?thesis by blast
qed

theorem image_ref_shared_counterexample:
  "run windows_pc same_millisecond init \<noteq> None \<and>
   map idx (ledger windows_pc same_millisecond) = [1, 2] \<and>
   map img_rel (ledger windows_pc same_millisecond)
     = [''images/step_1700000000000.png'', ''images/step_1700000000000.png'']"
  using ledger_same_millisecond by simp

text \<open>
  C6. \<open>record\<close> always appends its step, whether or not the annotation raised. The step's
  \<open>marked_image_ref\<close> is the annotated image's path, \<open>images_marked/<name>\<close>, when the
  action is a click (it starts with \<open>click\<close>, as exactly the actions of \<open>on_click\<close> do)
  and the annotation succeeded; in every other case, a scroll or a manual screenshot or
  an annotation that raised, it is the step's \<open>image_ref\<close>. The two paths differ, so
  the first case is the only one with the annotated path. An exception of the annotation
  never leaves \<open>record\<close>: the only exception that leaves it is the one of the \<open>print\<close> of
  line 214, after the append, and whether that one is raised depends on the printed
  line, which does not mention the annotation.
\<close>

theorem marked_image_fallback:
  "(\<exists>st. steps (fst (record_call G ob act px py img s)) = steps s @ [st] \<and>
      img_rel st = ''images/'' @ path_name img \<and>
      img_mark_rel st =
        (if prefix ''click'' act \<and>
            \<not> isl (annotate_click_on_image G ob img (IMAGES_MARKED_DIR, path_name img)
                     (Some (px, py)) (files s))
         then ''images_marked/'' @ path_name img else img_rel st) \<and>
      ''images_marked/'' @ path_name img \<noteq> img_rel st \<and>
      active_window_info G ob = Inr (window_title st, app_name st) \<and>
      snd (record_call G ob act px py img s)
        = print_fault ob (console_line (now_human ob) act px py (path_name img)
                            (window_title st) (app_name st))) \<and>
   prefix ''click'' (click_action b) \<and>
   \<not> prefix ''click'' (scroll_action dx dy) \<and>
   \<not> prefix ''click'' manual_action"
proof -
  obtain st where 1: "steps (fst (record_call G ob act px py img s)) = steps s @ [st]"
    and 2: "snd (record_call G ob act px py img s)
           = print_fault ob (console_line (now_human ob) act px py (path_name img)
                               (window_title st) (app_name st))"
    and 3: "img_rel st = ''images/'' @ path_name img"
    and w: "active_window_info G ob = Inr (window_title st, app_name st)"
    and 4: "img_mark_rel st =
           (if fst (mark_image G ob act px py img (files s)) \<noteq> []
            then fst (mark_image G ob act px py img (files s))
            else ''images/'' @ path_name img)"
    by (rule record_call_appends [of G ob act px py img s])
  from 3 4 have 5: "img_mark_rel st =
        (if prefix ''click'' act \<and>
            \<not> isl (annotate_click_on_image G ob img (IMAGES_MARKED_DIR, path_name img)
                     (Some (px, py)) (files s))
         then ''images_marked/'' @ path_name img else img_rel st)"
    by (simp add: mark_image_fst)
  from 3 have 6: "''images_marked/'' @ path_name img \<noteq> img_rel st" by simp
  have 7: "prefix ''click'' (click_action b)" by (simp add: click_action_def)
  have 8: "\<not> prefix ''click'' (scroll_action dx dy)" by (simp add: scroll_action_def)
  have 9: "\<not> prefix ''click'' manual_action" by (simp add: manual_action_def)
  show ?thesis
    apply (intro conjI exI [of _ st])
            apply (rule 1)
           apply (rule 3)
          apply (rule 5)
         apply (rule 6)
        apply (rule w)
       apply (rule 2)
      apply (rule 7)
     apply (rule 8)
    apply (rule 9)
    done
qed

theorem marked_image_fallback_witness:
  "isl (annotate_click_on_image windows_pc (bad_image 1000) (IMAGES_DIR, ''step_1000.png'')
        (IMAGES_MARKED_DIR, ''step_1000.png'') (Some (Some 100, Some 200))
        [(IMAGES_DIR, ''step_1000.png'') \<mapsto> black]) \<and>
   snd (record_call windows_pc (bad_image 1000) ''click left'' (Some 100) (Some 200)
        (IMAGES_DIR, ''step_1000.png'')
        ((shared init)\<lparr>files := [(IMAGES_DIR, ''step_1000.png'') \<mapsto> black]\<rparr>)) = None \<and>
   length (steps (fst (record_call windows_pc (bad_image 1000) ''click left'' (Some 100) (Some 200)
        (IMAGES_DIR, ''step_1000.png'')
        ((shared init)\<lparr>files := [(IMAGES_DIR, ''step_1000.png'') \<mapsto> black]\<rparr>)))) = 1 \<and>
   map img_mark_rel (ledger windows_pc
     (handled (Click 100 200 (Button ''left'') True) (bad_image 1000))) = [''images/step_1000.png''] \<and>
   map img_mark_rel (ledger windows_pc scenarios)
     = [''images_marked/step_1000.png'', ''images/step_1001.png'', ''images/step_1002.png''] \<and>
   map img_mark_rel (ledger windows_pc
     [Deliver (Click 100 200 (Button ''left'') True) (desktop 1000), Acquire Mouse,
      Increment Mouse, Build Mouse (bad_console 1000)]) = [''images_marked/step_1000.png'']"
proof -
  have a: "isl (annotate_click_on_image windows_pc (bad_image 1000) (IMAGES_DIR, ''step_1000.png'')
        (IMAGES_MARKED_DIR, ''step_1000.png'') (Some (Some 100, Some 200))
        [(IMAGES_DIR, ''step_1000.png'') \<mapsto> black])"
    by (simp add: annotate_click_on_image_def bad_image_def)
  have pf: "print_fault (bad_image 1000) line = None" for line
    by (simp add: bad_image_def desktop_def)
  from marked_image_fallback [of windows_pc "bad_image 1000" "''click left''" "Some 100"
      "Some 200" "(IMAGES_DIR, ''step_1000.png'')"
      "(shared init)\<lparr>files := [(IMAGES_DIR, ''step_1000.png'') \<mapsto> black]\<rparr>"]
  obtain st where "steps (fst (record_call windows_pc (bad_image 1000) ''click left'' (Some 100)
        (Some 200) (IMAGES_DIR, ''step_1000.png'')
        ((shared init)\<lparr>files := [(IMAGES_DIR, ''step_1000.png'') \<mapsto> black]\<rparr>)))
      = steps ((shared init)\<lparr>files := [(IMAGES_DIR, ''step_1000.png'') \<mapsto> black]\<rparr>) @ [st]"
    and "snd (record_call windows_pc (bad_image 1000) ''click left'' (Some 100) (Some 200)
        (IMAGES_DIR, ''step_1000.png'')
        ((shared init)\<lparr>files := [(IMAGES_DIR, ''step_1000.png'') \<mapsto> black]\<rparr>))
        = print_fault (bad_image 1000) (console_line (now_human (bad_image 1000)) ''click left''
            (Some 100) (Some 200) (path_name (IMAGES_DIR, ''step_1000.png''))
            (window_title st) (app_name st))"
    by blast
  then have b: "snd (record_call windows_pc (bad_image 1000) ''click left'' (Some 100) (Some 200)
        (IMAGES_DIR, ''step_1000.png'')
        ((shared init)\<lparr>files := [(IMAGES_DIR, ''step_1000.png'') \<mapsto> black]\<rparr>)) = None"
    and c: "length (steps (fst (record_call windows_pc (bad_image 1000) ''click left'' (Some 100)
        (Some 200) (IMAGES_DIR, ''step_1000.png'')
        ((shared init)\<lparr>files := [(IMAGES_DIR, ''step_1000.png'') \<mapsto> black]\<rparr>)))) = 1"
    by (simp_all add: pf init_def)
  from a b c show ?thesis using ledger_bad_image ledger_scenarios ledger_bad_console by simp
qed

text \<open>
  C7 (as amended). With a crop radius other than 0 and a position, the captured region
  is the square of side twice the radius whose left and top edges are
  \<open>max 0 (x - radius)\<close> and \<open>max 0 (y - radius)\<close>; for a positive radius it is the square
  centred on the position exactly when the position is at least the radius away from
  the left and the top edge. With radius 0, or with no position, the full screen is
  captured.
\<close>

theorem crop_region_clamped:
  "crop_region G (Some xv) (Some yv) =
     (if CROP_RADIUS G = 0 then None
      else Some (max 0 (xv - CROP_RADIUS G), max 0 (yv - CROP_RADIUS G),
                 2 * CROP_RADIUS G, 2 * CROP_RADIUS G)) \<and>
   crop_region G None py = None \<and>
   crop_region G px None = None \<and>
   (0 < CROP_RADIUS G \<longrightarrow>
      (crop_region G (Some xv) (Some yv) = Some (centred_square (CROP_RADIUS G) xv yv)
       \<longleftrightarrow> CROP_RADIUS G \<le> xv \<and> CROP_RADIUS G \<le> yv)) \<and>
   capture_with_optional_crop G ob px py fs = capture ob (crop_region G px py) fs"
  by (cases px) (auto simp: crop_region_def centred_square_def capture_with_optional_crop_def Let_def)

theorem crop_region_clamped_witness:
  "0 < CROP_RADIUS (windows_pc\<lparr>CROP_RADIUS := 220\<rparr>) \<and>
   crop_region (windows_pc\<lparr>CROP_RADIUS := 220\<rparr>) (Some 500) (Some 300) = Some (280, 80, 440, 440) \<and>
   crop_region (windows_pc\<lparr>CROP_RADIUS := 220\<rparr>) (Some 500) (Some 300)
     = Some (centred_square 220 500 300)"
  using crop_region_clamped [of "windows_pc\<lparr>CROP_RADIUS := 220\<rparr>" 500 300 None None "desktop 0" Map.empty]
  by (simp add: centred_square_def)

theorem crop_region_not_centred_counterexample:
  "crop_region (windows_pc\<lparr>CROP_RADIUS := 220\<rparr>) (Some 100) (Some 50) = Some (0, 0, 440, 440) \<and>
   crop_region (windows_pc\<lparr>CROP_RADIUS := 220\<rparr>) (Some 100) (Some 50)
     \<noteq> Some (centred_square 220 100 50)"
  by (simp add: crop_region_def centred_square_def)

text \<open>
  C8. Given that a Pillow ellipse keeps the image's size and changes no pixel outside its
  bounding box, annotating with a point \<open>(x, y)\<close> writes to the target path the RGB
  conversion (no alpha) of the source's copy on which first a ring of radius \<open>R + 2\<close> and
  width \<open>W + 2\<close> in the translucent shadow colour and then a ring of radius \<open>R\<close> and width
  \<open>W\<close> in the opaque circle colour were drawn, both centred on \<open>(x, y)\<close>; the result has
  the source's dimensions and differs from it only inside the bounding box of the outer
  ring, which contains the inner one. Annotating with no point writes a copy of the
  source. \<open>R = 18\<close> and \<open>W = 5\<close>.
\<close>

theorem annotate_two_rings:
  "draws_inside_box (ellipse G) \<Longrightarrow> pil_fault ob = None \<Longrightarrow> fs src = Some im \<Longrightarrow>
     (\<exists>out. annotate_click_on_image G ob src dst (Some (Some xv, Some yv)) fs
               = Inr (fs(dst \<mapsto> out)) \<and>
        out = convert_RGB
                (ellipse G (xv - CIRCLE_RADIUS, yv - CIRCLE_RADIUS,
                            xv + CIRCLE_RADIUS, yv + CIRCLE_RADIUS)
                   (opaque CIRCLE_COLOR) CIRCLE_WIDTH
                   (ellipse G (xv - (CIRCLE_RADIUS + 2), yv - (CIRCLE_RADIUS + 2),
                               xv + (CIRCLE_RADIUS + 2), yv + (CIRCLE_RADIUS + 2))
                      SHADOW_COLOR (CIRCLE_WIDTH + 2) (convert_RGBA im))) \<and>
        im_width out = im_width im \<and> im_height out = im_height im \<and>
        (\<forall>px py. \<not> in_box (xv - (CIRCLE_RADIUS + 2), yv - (CIRCLE_RADIUS + 2),
                            xv + (CIRCLE_RADIUS + 2), yv + (CIRCLE_RADIUS + 2)) px py
           \<longrightarrow> im_pixel out px py = im_pixel im px py)) \<and>
     annotate_click_on_image G ob src dst None fs = Inr (fs(dst \<mapsto> im)) \<and>
     CIRCLE_RADIUS = 18 \<and> CIRCLE_WIDTH = 5 \<and>
     SHADOW_COLOR = (0, 0, 0, 90) \<and> opaque CIRCLE_COLOR = (220, 40, 40, 255)"
proof -
  assume fr: "draws_inside_box (ellipse G)" and ok: "pil_fault ob = None"
    and src: "fs src = Some im"
  let ?outer = "(xv - (CIRCLE_RADIUS + 2), yv - (CIRCLE_RADIUS + 2),
                 xv + (CIRCLE_RADIUS + 2), yv + (CIRCLE_RADIUS + 2))"
  let ?inner = "(xv - CIRCLE_RADIUS, yv - CIRCLE_RADIUS, xv + CIRCLE_RADIUS, yv + CIRCLE_RADIUS)"
  let ?shadow = "ellipse G ?outer SHADOW_COLOR (CIRCLE_WIDTH + 2) (convert_RGBA im)"
  let ?ring = "ellipse G ?inner (opaque CIRCLE_COLOR) CIRCLE_WIDTH ?shadow"
  let ?out = "convert_RGB ?ring"
  from fr have w: "\<And>box col wd i. im_width (ellipse G box col wd i) = im_width i"
    and h: "\<And>box col wd i. im_height (ellipse G box col wd i) = im_height i"
    and p: "\<And>box col wd i px py. \<not> in_box box px py \<Longrightarrow>
              im_pixel (ellipse G box col wd i) px py = im_pixel i px py"
    unfolding draws_inside_box_def by blast+
  have 1: "annotate_click_on_image G ob src dst (Some (Some xv, Some yv)) fs
               = Inr (fs(dst \<mapsto> ?out))"
    by (simp add: annotate_click_on_image_def ok src Let_def diff_diff_eq add.assoc)
  have 2: "im_width ?out = im_width im" by (simp add: convert_RGB_def w) (simp add: convert_RGBA_def)
  have 3: "im_height ?out = im_height im" by (simp add: convert_RGB_def h) (simp add: convert_RGBA_def)
  have 4: "im_pixel ?out px py = im_pixel im px py" if out: "\<not> in_box ?outer px py" for px py
  proof -
    from out have "\<not> in_box ?inner px py" using in_box_inner_outer by blast
    then have "im_pixel ?ring px py = im_pixel ?shadow px py" by (rule p)
    also from out have "\<dots> = im_pixel (convert_RGBA im) px py" by (rule p)
    finally show ?thesis by (rule convert_RGB_pixel)
  qed
  have 5: "annotate_click_on_image G ob src dst None fs = Inr (fs(dst \<mapsto> im))"
    by (simp add: annotate_click_on_image_def ok src convert_roundtrip)
  have 6: "CIRCLE_RADIUS = 18 \<and> CIRCLE_WIDTH = 5 \<and>
     SHADOW_COLOR = (0, 0, 0, 90) \<and> opaque CIRCLE_COLOR = (220, 40, 40, 255)"
    by (simp add: CIRCLE_RADIUS_def CIRCLE_WIDTH_def SHADOW_COLOR_def opaque_def CIRCLE_COLOR_def)
  from 1 2 3 4 5 6 show ?thesis by blast
qed

theorem annotate_two_rings_witness:
  "draws_inside_box (ellipse windows_pc) \<and>
   pil_fault (desktop 1000) = None \<and>
   [(IMAGES_DIR, ''step_1000.png'') \<mapsto> black] (IMAGES_DIR, ''step_1000.png'') = Some black \<and>
   annotate_click_on_image windows_pc (desktop 1000) (IMAGES_DIR, ''step_1000.png'')
       (IMAGES_MARKED_DIR, ''step_1000.png'') None [(IMAGES_DIR, ''step_1000.png'') \<mapsto> black]
     = Inr ([(IMAGES_DIR, ''step_1000.png'') \<mapsto> black,
             (IMAGES_MARKED_DIR, ''step_1000.png'') \<mapsto> black]) \<and>
   (case annotate_click_on_image windows_pc (desktop 1000) (IMAGES_DIR, ''step_1000.png'')
       (IMAGES_MARKED_DIR, ''step_1000.png'') (Some (Some 100, Some 200))
       [(IMAGES_DIR, ''step_1000.png'') \<mapsto> black] of
      Inl e \<Rightarrow> False
    | Inr fs' \<Rightarrow>
       (case fs' (IMAGES_MARKED_DIR, ''step_1000.png'') of
          None \<Rightarrow> False
        | Some out \<Rightarrow>
            im_width out = 1920 \<and> im_height out = 1080 \<and>
            im_pixel out 116 200 = (220, 40, 40) \<and>
            im_pixel out 100 200 = (0, 0, 0) \<and>
            im_pixel out 500 500 = (0, 0, 0)))"
proof -
  have a: "draws_inside_box (ellipse windows_pc)"
    by (simp add: windows_pc_def draws_inside_box_paint_ring)
  have b: "pil_fault (desktop 1000) = None" by (simp add: desktop_def)
  have c: "[(IMAGES_DIR, ''step_1000.png'') \<mapsto> black] (IMAGES_DIR, ''step_1000.png'') = Some black"
    by simp
  note t = annotate_two_rings [where G = windows_pc and ob = "desktop 1000"
      and fs = "[(IMAGES_DIR, ''step_1000.png'') \<mapsto> black]"
      and src = "(IMAGES_DIR, ''step_1000.png'')" and im = black
      and dst = "(IMAGES_MARKED_DIR, ''step_1000.png'')" and xv = 100 and yv = 200, OF a b c]
  from t obtain out where
    1: "annotate_click_on_image windows_pc (desktop 1000) (IMAGES_DIR, ''step_1000.png'')
       (IMAGES_MARKED_DIR, ''step_1000.png'') (Some (Some 100, Some 200))
       [(IMAGES_DIR, ''step_1000.png'') \<mapsto> black]
       = Inr ([(IMAGES_DIR, ''step_1000.png'') \<mapsto> black,
               (IMAGES_MARKED_DIR, ''step_1000.png'') \<mapsto> out])"
    and 2: "out = convert_RGB
                (ellipse windows_pc (100 - CIRCLE_RADIUS, 200 - CIRCLE_RADIUS,
                            100 + CIRCLE_RADIUS, 200 + CIRCLE_RADIUS)
                   (opaque CIRCLE_COLOR) CIRCLE_WIDTH
                   (ellipse windows_pc (100 - (CIRCLE_RADIUS + 2), 200 - (CIRCLE_RADIUS + 2),
                               100 + (CIRCLE_RADIUS + 2), 200 + (CIRCLE_RADIUS + 2))
                      SHADOW_COLOR (CIRCLE_WIDTH + 2) (convert_RGBA black)))"
    and 3: "im_width out = im_width black" "im_height out = im_height black"
    and 4: "\<forall>px py. \<not> in_box (100 - (CIRCLE_RADIUS + 2), 200 - (CIRCLE_RADIUS + 2),
                            100 + (CIRCLE_RADIUS + 2), 200 + (CIRCLE_RADIUS + 2)) px py
           \<longrightarrow> im_pixel out px py = im_pixel black px py"
    by blast
  from 4 have 5: "im_pixel out 500 500 = (0, 0, 0)"
    by (simp add: in_box_def CIRCLE_RADIUS_def black_def)
  from 2 have 6: "im_pixel out 116 200 = (220, 40, 40)"
    by (simp add: windows_pc_def paint_ring_def on_ring_def lay_over_def convert_RGB_def
        convert_RGBA_def in_box_def CIRCLE_RADIUS_def CIRCLE_WIDTH_def SHADOW_COLOR_def
        opaque_def CIRCLE_COLOR_def black_def Let_def)
  from 2 have 7: "im_pixel out 100 200 = (0, 0, 0)"
    by (simp add: windows_pc_def paint_ring_def on_ring_def lay_over_def convert_RGB_def
        convert_RGBA_def in_box_def CIRCLE_RADIUS_def CIRCLE_WIDTH_def SHADOW_COLOR_def
        opaque_def CIRCLE_COLOR_def black_def Let_def)
  from t have 8: "annotate_click_on_image windows_pc (desktop 1000) (IMAGES_DIR, ''step_1000.png'')
       (IMAGES_MARKED_DIR, ''step_1000.png'') None [(IMAGES_DIR, ''step_1000.png'') \<mapsto> black]
     = Inr ([(IMAGES_DIR, ''step_1000.png'') \<mapsto> black,
             (IMAGES_MARKED_DIR, ''step_1000.png'') \<mapsto> black])"
    by blast
  from 3 have 9: "im_width out = 1920" "im_height out = 1080" by (simp_all add: black_def)
  from a b c 8 show ?thesis by (simp add: 1 5 6 7 9)
qed

text \<open>
  C9 (as amended). \<open>active_window_info\<close> always returns a pair and never lets an exception
  out. When all its lookups fail, that is, when each of its two \<open>try\<close> bodies that runs is
  left by an exception (as when \<open>getActiveWindow\<close> and \<open>GetForegroundWindow\<close> both raise),
  the pair is two empty strings. When it is the process lookup that fails, \<open>app_name\<close> is
  empty, whatever the title. \<open>record\<close> appends the step with the pair it was given, empty
  or not.
\<close>

theorem active_window_info_never_raises:
  "(\<exists>title app. active_window_info G ob = Inr (title, app)) \<and>
   ((gw G \<longrightarrow> snd (via_pygetwindow G ob ([], [])) \<noteq> None) \<and>
    (is_windows G \<and> win32gui G \<longrightarrow> snd (via_win32 G ob ([], [])) \<noteq> None)
      \<longrightarrow> active_window_info G ob = Inr ([], [])) \<and>
   ((\<exists>e. getActiveWindow ob = Inl e) \<and> (\<exists>e. GetForegroundWindow ob = Inl e)
      \<longrightarrow> active_window_info G ob = Inr ([], [])) \<and>
   ((\<forall>h. isl (GetWindowThreadProcessId ob h)) \<or> (\<forall>p. isl (Process_name ob p))
      \<longrightarrow> (\<exists>title. active_window_info G ob = Inr (title, []))) \<and>
   (\<forall>title app. active_window_info G ob = Inr (title, app) \<longrightarrow>
      (\<exists>st. steps (fst (record_call G ob act px py img s)) = steps s @ [st] \<and>
            window_title st = title \<and> app_name st = app))"
  (is "?A \<and> ?B \<and> ?C \<and> ?D \<and> ?E")
proof -
  have A: ?A by (rule active_window_info_returns)
  have 2: "active_window_info G ob = Inr ([], [])"
    if a: "gw G \<longrightarrow> snd (via_pygetwindow G ob ([], [])) \<noteq> None"
      and b: "is_windows G \<and> win32gui G \<longrightarrow> snd (via_win32 G ob ([], [])) \<noteq> None"
  proof -
    have p: "fst (via_pygetwindow G ob ([], [])) = ([], [])" if "gw G"
    proof -
      from a that obtain e where "snd (via_pygetwindow G ob ([], [])) = Some e" by blast
      then have "via_pygetwindow G ob ([], []) = (fst (via_pygetwindow G ob ([], [])), Some e)"
        by (simp add: prod_eq_iff)
      then show ?thesis by (rule via_pygetwindow_raised)
    qed
    have w: "fst (via_win32 G ob ([], [])) = ([], [])" if "is_windows G" "win32gui G"
    proof -
      from b that obtain e where "snd (via_win32 G ob ([], [])) = Some e" by blast
      then have "via_win32 G ob ([], []) = (fst (via_win32 G ob ([], [])), Some e)"
        by (simp add: prod_eq_iff)
      then show ?thesis by (rule via_win32_raised)
    qed
    show ?thesis
      by (simp add: active_window_info_def Let_def except_pass_def p w)
  qed
  have B: ?B by (intro impI, elim conjE, rule 2, assumption, assumption)
  have 3: "active_window_info G ob = Inr ([], [])"
    if "\<exists>e. getActiveWindow ob = Inl e" "\<exists>e. GetForegroundWindow ob = Inl e"
  proof (rule 2)
    from that(1) show "gw G \<longrightarrow> snd (via_pygetwindow G ob ([], [])) \<noteq> None"
      by (auto simp: via_pygetwindow_def)
    from that(2) show "is_windows G \<and> win32gui G \<longrightarrow> snd (via_win32 G ob ([], [])) \<noteq> None"
      by (auto simp: via_win32_def)
  qed
  have C: ?C by (intro impI, elim conjE, rule 3, assumption, assumption)
  have D: ?D by (intro impI, rule active_window_info_app_fails, assumption)
  have E: ?E
  proof (intro allI impI)
    fix title app assume e: "active_window_info G ob = Inr (title, app)"
    obtain st where 1: "steps (fst (record_call G ob act px py img s)) = steps s @ [st]"
      and 2: "active_window_info G ob = Inr (window_title st, app_name st)"
      by (rule record_call_appends [of G ob act px py img s])
    from e 2 have "window_title st = title" "app_name st = app" by simp_all
    with 1 show "\<exists>st. steps (fst (record_call G ob act px py img s)) = steps s @ [st] \<and>
            window_title st = title \<and> app_name st = app" by blast
  qed
  show ?thesis using A B C D E by (intro conjI)
qed

theorem active_window_info_never_raises_witness:
  "getActiveWindow (no_window 1000) = Inl (Exception ''no window'') \<and>
   GetForegroundWindow (no_window 1000) = Inl (Exception ''no window'') \<and>
   active_window_info windows_pc (no_window 1000) = Inr ([], []) \<and>
   length (steps (fst (record_call windows_pc (no_window 1000) ''click left'' (Some 100) (Some 200)
        (IMAGES_DIR, ''step_1000.png'') (shared init)))) = 1 \<and>
   map window_title (steps (fst (record_call windows_pc (no_window 1000) ''click left''
        (Some 100) (Some 200) (IMAGES_DIR, ''step_1000.png'') (shared init)))) = [[]] \<and>
   map app_name (steps (fst (record_call windows_pc (no_window 1000) ''click left''
        (Some 100) (Some 200) (IMAGES_DIR, ''step_1000.png'') (shared init)))) = [[]] \<and>
   map window_title (ledger windows_pc
        (handled (Click 100 200 (Button ''left'') True) (no_window 1000))) = [[]] \<and>
   map app_name (ledger windows_pc
        (handled (Click 100 200 (Button ''left'') True) (no_window 1000))) = [[]]"
proof -
  have a: "getActiveWindow (no_window 1000) = Inl (Exception ''no window'')"
    and b: "GetForegroundWindow (no_window 1000) = Inl (Exception ''no window'')"
    by (simp_all add: no_window_def)
  note t = active_window_info_never_raises [of windows_pc "no_window 1000" "''click left''"
      "Some 100" "Some 200" "(IMAGES_DIR, ''step_1000.png'')" "shared init"]
  from t a b have w: "active_window_info windows_pc (no_window 1000) = Inr ([], [])" by blast
  with t obtain st where
    "steps (fst (record_call windows_pc (no_window 1000) ''click left'' (Some 100)
        (Some 200) (IMAGES_DIR, ''step_1000.png'') (shared init))) = steps (shared init) @ [st]"
    and "window_title st = []" and "app_name st = []"
    by blast
  then have "length (steps (fst (record_call windows_pc (no_window 1000) ''click left'' (Some 100)
        (Some 200) (IMAGES_DIR, ''step_1000.png'') (shared init)))) = 1 \<and>
     map window_title (steps (fst (record_call windows_pc (no_window 1000) ''click left''
        (Some 100) (Some 200) (IMAGES_DIR, ''step_1000.png'') (shared init)))) = [[]] \<and>
     map app_name (steps (fst (record_call windows_pc (no_window 1000) ''click left''
        (Some 100) (Some 200) (IMAGES_DIR, ''step_1000.png'') (shared init)))) = [[]]"
    by (simp add: init_def)
  with a b w show ?thesis using ledger_no_window by simp
qed

theorem partial_failure_counterexample:
  "Process_name (no_process 1000) 77 = Inl (Exception ''access denied'') \<and>
   active_window_info windows_pc (no_process 1000) = Inr (''Notepad'', []) \<and>
   getActiveWindow (no_pygetwindow 1000) = Inl (Exception ''no window'') \<and>
   active_window_info windows_pc (no_pygetwindow 1000) = Inr (''Notepad'', ''notepad.exe'')"
  by (simp add: sample_defs record_defs Let_def)

text \<open>
  C10. Where \<open>is_windows\<close> is false, the window inspector returns an empty \<open>app_name\<close>
  whatever the active window is, and so every step of every run has an empty \<open>app_name\<close>;
  only the title can be filled in.
\<close>

theorem app_name_empty_off_windows:
  "\<not> is_windows G \<Longrightarrow>
     (\<exists>title. active_window_info G ob = Inr (title, [])) \<and>
     (run G ls init = Some c \<longrightarrow> (\<forall>s \<in> set (steps (shared c)). app_name s = []))"
proof -
  assume nw: "\<not> is_windows G"
  obtain title app where w: "active_window_info G ob = Inr (title, app)"
    using active_window_info_returns by blast
  from active_window_info_not_windows [OF nw w] have "app = []" by simp
  with w have 1: "\<exists>title. active_window_info G ob = Inr (title, [])" by blast
  have 2: "\<forall>s \<in> set (steps (shared c)). app_name s = []" if r: "run G ls init = Some c"
  proof (rule run_invariant [where P = "\<lambda>c. \<forall>s \<in> set (steps (shared c)). app_name s = []"
        and G = G and ?c0.0 = init and ls = ls])
    show "\<forall>s \<in> set (steps (shared init)). app_name s = []" by (simp add: init_def)
    show "run G ls init = Some c" by (rule r)
    show "\<forall>s \<in> set (steps (shared c')). app_name s = []"
      if "\<forall>s \<in> set (steps (shared c)). app_name s = []" "step G l c = Some c'" for c l c'
      using nw that by (rule app_name_step)
  qed
  from 1 2 show ?thesis by blast
qed

theorem app_name_empty_off_windows_witness:
  "\<not> is_windows linux_pc \<and>
   active_window_info linux_pc (desktop 1000) = Inr (''Notepad'', []) \<and>
   run linux_pc scenarios init \<noteq> None \<and>
   map window_title (ledger linux_pc scenarios) = [''Notepad'', ''Notepad'', ''Notepad''] \<and>
   list_all (\<lambda>s. app_name s = []) (ledger linux_pc scenarios)"
proof -
  have nw: "\<not> is_windows linux_pc" by (simp add: linux_pc_def)
  obtain c where r: "run linux_pc scenarios init = Some c"
    using ledger_scenarios_linux by blast
  from app_name_empty_off_windows [OF nw, of "desktop 1000" scenarios c] r
  have "\<forall>s \<in> set (steps (shared c)). app_name s = []" by blast
  with ledger_run [OF r] have "list_all (\<lambda>s. app_name s = []) (ledger linux_pc scenarios)"
    by (simp add: list_all_iff)
  moreover have "active_window_info linux_pc (desktop 1000) = Inr (''Notepad'', [])"
    by (simp add: sample_defs record_defs Let_def)
  ultimately show ?thesis using nw ledger_scenarios_linux by simp
qed

end
